theory Spec2Isabelle
  imports Main
begin

section \<open>Strings and character classes\<close>

text \<open>
  A Python \<open>str\<close> is a sequence of Unicode code points, so a string is modelled as a list of
  code points (natural numbers). \<open>ustr\<close> turns an ASCII literal into such a list.
\<close>

type_synonym pystr = "nat list"

abbreviation ch :: "char \<Rightarrow> nat" where
  "ch c \<equiv> of_char c"

definition ustr :: "string \<Rightarrow> pystr" where
  "ustr s = map of_char s"

text \<open>
  \<open>\d\<close> in a \<open>str\<close> pattern matches every code point of category Nd. The ranges below are
  those of Unicode 14.0 (the table of CPython 3.11); \<open>[a-z]\<close> is the ASCII range only.
\<close>

definition nd_ranges :: "(nat \<times> nat) list" where
  "nd_ranges =
    [(48, 57), (1632, 1641), (1776, 1785), (1984, 1993), (2406, 2415), (2534, 2543),
     (2662, 2671), (2790, 2799), (2918, 2927), (3046, 3055), (3174, 3183), (3302, 3311),
     (3430, 3439), (3558, 3567), (3664, 3673), (3792, 3801), (3872, 3881), (4160, 4169),
     (4240, 4249), (6112, 6121), (6160, 6169), (6470, 6479), (6608, 6617), (6784, 6793),
     (6800, 6809), (6992, 7001), (7088, 7097), (7232, 7241), (7248, 7257), (42528, 42537),
     (43216, 43225), (43264, 43273), (43472, 43481), (43504, 43513), (43600, 43609),
     (44016, 44025), (65296, 65305), (66720, 66729), (68912, 68921), (69734, 69743),
     (69872, 69881), (69942, 69951), (70096, 70105), (70384, 70393), (70736, 70745),
     (70864, 70873), (71248, 71257), (71360, 71369), (71472, 71481), (71904, 71913),
     (72016, 72025), (72784, 72793), (73040, 73049), (73120, 73129), (92768, 92777),
     (92864, 92873), (93008, 93017), (120782, 120831), (123200, 123209), (123632, 123641),
     (125264, 125273), (130032, 130041)]"

definition is_digit :: "nat \<Rightarrow> bool" where
  "is_digit c = list_ex (\<lambda>(lo, hi). lo \<le> c \<and> c \<le> hi) nd_ranges"

definition is_lower :: "nat \<Rightarrow> bool" where
  "is_lower c = (97 \<le> c \<and> c \<le> 122)"

text \<open>The code points that \<open>str.strip()\<close> removes (those with \<open>str.isspace()\<close>).\<close>

definition space_ranges :: "(nat \<times> nat) list" where
  "space_ranges =
    [(9, 13), (28, 32), (133, 133), (160, 160), (5760, 5760), (8192, 8202), (8232, 8233),
     (8239, 8239), (8287, 8287), (12288, 12288)]"

definition is_space :: "nat \<Rightarrow> bool" where
  "is_space c = list_ex (\<lambda>(lo, hi). lo \<le> c \<and> c \<le> hi) space_ranges"

definition strip :: "pystr \<Rightarrow> pystr" where
  "strip s = rev (dropWhile is_space (rev (dropWhile is_space s)))"

text \<open>\<open>str(n)\<close> for an integer: decimal digits, with a minus sign when negative.\<close>

function str_nat :: "nat \<Rightarrow> pystr" where
  "str_nat n = (if n < 10 then [48 + n] else str_nat (n div 10) @ [48 + n mod 10])"
  by pat_completeness auto
termination
  by (relation "measure id") auto

declare str_nat.simps [simp del]

definition str_int :: "int \<Rightarrow> pystr" where
  "str_int i = (if i < 0 then ch CHR ''-'' # str_nat (nat (- i)) else str_nat (nat i))"

section \<open>Regular expressions\<close>

text \<open>
  The five patterns of the module are sequences of literals, character classes, \<open>C+\<close> and
  \<open>C?\<close>. \<open>mt es s\<close> matches the sequence \<open>es\<close> at the start of \<open>s\<close> the way a backtracking
  engine does (greedy, longest first) and returns the text matched by each element together
  with the rest of the string.
\<close>

datatype elem = Lit nat | Cls "nat \<Rightarrow> bool" | Plus "nat \<Rightarrow> bool" | Opt "nat \<Rightarrow> bool"

fun mt :: "elem list \<Rightarrow> pystr \<Rightarrow> (pystr list \<times> pystr) option" where
  "mt [] s = Some ([], s)"
| "mt (Lit c # es) [] = None"
| "mt (Lit c # es) (x # xs) =
     (if x = c then (case mt es xs of Some (ps, r) \<Rightarrow> Some ([x] # ps, r) | None \<Rightarrow> None)
      else None)"
| "mt (Cls P # es) [] = None"
| "mt (Cls P # es) (x # xs) =
     (if P x then (case mt es xs of Some (ps, r) \<Rightarrow> Some ([x] # ps, r) | None \<Rightarrow> None)
      else None)"
| "mt (Opt P # es) [] = (case mt es [] of Some (ps, r) \<Rightarrow> Some ([] # ps, r) | None \<Rightarrow> None)"
| "mt (Opt P # es) (x # xs) =
     (case (if P x then mt es xs else None) of
        Some (ps, r) \<Rightarrow> Some ([x] # ps, r)
      | None \<Rightarrow> (case mt es (x # xs) of Some (ps, r) \<Rightarrow> Some ([] # ps, r) | None \<Rightarrow> None))"
| "mt (Plus P # es) [] = None"
| "mt (Plus P # es) (x # xs) =
     (if P x then
        (case mt (Plus P # es) xs of
           Some (p # ps, r) \<Rightarrow> Some ((x # p) # ps, r)
         | _ \<Rightarrow> (case mt es xs of Some (ps, r) \<Rightarrow> Some ([x] # ps, r) | None \<Rightarrow> None))
      else None)"

text \<open>\<open>pattern.search(s)\<close>: the leftmost match, as the list of texts matched by the elements.\<close>

fun search :: "elem list \<Rightarrow> pystr \<Rightarrow> pystr list option" where
  "search es [] = map_option fst (mt es [])"
| "search es (c # cs) =
     (case mt es (c # cs) of Some (ps, r) \<Rightarrow> Some ps | None \<Rightarrow> search es cs)"

text \<open>
  \<open>pattern.sub(repl, s)\<close> with a callable \<open>repl\<close> that may update a state (the closure of
  \<open>replace_page_markers\<close> does): the matches are replaced from left to right, without overlap.
  Every pattern of the module starts with a literal, so none matches the empty string; the
  branch for an empty match is there to keep the function total.
\<close>

fun sub_st ::
  "elem list \<Rightarrow> (pystr list \<Rightarrow> 's \<Rightarrow> pystr \<times> 's) \<Rightarrow> pystr \<Rightarrow> 's \<Rightarrow> pystr \<times> 's" where
  "sub_st es f [] st = ([], st)"
| "sub_st es f (c # cs) st =
     (case mt es (c # cs) of
        Some (ps, r) \<Rightarrow>
          (if length r \<le> length cs then
             (case f ps st of (t, st') \<Rightarrow>
                (case sub_st es f r st' of (u, st'') \<Rightarrow> (t @ u, st'')))
           else (case f ps st of (t, st') \<Rightarrow>
                (case sub_st es f cs st' of (u, st'') \<Rightarrow> (t @ c # u, st''))))
      | None \<Rightarrow> (case sub_st es f cs st of (u, st') \<Rightarrow> (c # u, st')))"

text \<open>\<open>pattern.sub(repl, s)\<close> with a replacement computed from the groups only.\<close>

definition sub :: "elem list \<Rightarrow> (pystr list \<Rightarrow> pystr) \<Rightarrow> pystr \<Rightarrow> pystr" where
  "sub es f s = fst (sub_st es (\<lambda>ps (u::unit). (f ps, u)) s ())"

section \<open>The patterns of the splitter\<close>

definition SECTION_TOKEN_RE :: "elem list" where
  "SECTION_TOKEN_RE =
     [Lit (ch CHR ''{''), Lit (ch CHR ''D''), Plus is_digit, Opt is_lower, Lit (ch CHR ''}'')]"

definition SECTION_DASH_TOKEN_RE :: "elem list" where
  "SECTION_DASH_TOKEN_RE =
     [Lit (ch CHR ''{''), Lit (ch CHR ''D''), Plus is_digit, Lit (ch CHR ''-''), Plus is_digit,
      Lit (ch CHR ''}'')]"

definition BRACKET_WITH_DOT_RE :: "elem list" where
  "BRACKET_WITH_DOT_RE =
     [Lit (ch CHR ''[''), Plus is_digit, Cls is_lower, Lit (ch CHR ''.''), Plus is_digit,
      Lit (ch CHR '']'')]"

definition BRACKET_PAGE_RE :: "elem list" where
  "BRACKET_PAGE_RE = [Lit (ch CHR ''[''), Plus is_digit, Cls is_lower, Lit (ch CHR '']'')]"

definition TEXT_VARIANT_RE :: "elem list" where
  "TEXT_VARIANT_RE =
     [Lit (ch CHR ''{''), Plus (\<lambda>c. c \<noteq> ch CHR '','' \<and> c \<noteq> ch CHR ''}''), Lit (ch CHR '',''),
      Plus (\<lambda>c. c \<noteq> ch CHR ''}''), Lit (ch CHR ''}'')]"

section \<open>The line processor\<close>

text \<open>Step 1 of \<open>process_line\<close>: \<open>TEXT_VARIANT_RE.sub(r"\2", line)\<close>; group 2 is element 3.\<close>

definition collapse_variants :: "pystr \<Rightarrow> pystr" where
  "collapse_variants line = sub TEXT_VARIANT_RE (\<lambda>ps. ps ! 3) line"

definition process_line :: "pystr \<Rightarrow> pystr \<times> pystr option \<times> bool" where
  "process_line line0 =
     (let line1 = collapse_variants line0;
          line2 = sub BRACKET_WITH_DOT_RE (\<lambda>ps. []) line1;
          line3 = sub SECTION_DASH_TOKEN_RE (\<lambda>ps. []) line2;
          section_match = search SECTION_TOKEN_RE line3;
          section_token =
            (case section_match of
               None \<Rightarrow> None
             | Some ps \<Rightarrow> Some (ch CHR ''D'' # ps ! 2 @ ps ! 3));
          line4 =
            (case section_match of
               None \<Rightarrow> line3
             | Some ps \<Rightarrow> sub SECTION_TOKEN_RE (\<lambda>ps. []) line3);
          has_page_marker = (search BRACKET_PAGE_RE line4 \<noteq> None)
      in (line4, section_token, has_page_marker))"

definition is_meaningful_line :: "pystr \<Rightarrow> bool" where
  "is_meaningful_line line =
     (let cleaned = strip (sub BRACKET_PAGE_RE (\<lambda>ps. []) line);
          cleaned' = strip (sub BRACKET_WITH_DOT_RE (\<lambda>ps. []) cleaned)
      in length cleaned' > 0)"

text \<open>
  The loop of \<open>count_meaningful_lines_before_section\<close>, with the index \<open>i\<close> of the line and
  the running count; the index is \<open>-1\<close> when no line holds a section token.
\<close>

fun count_loop :: "pystr list \<Rightarrow> int \<Rightarrow> int \<Rightarrow> int \<times> int" where
  "count_loop [] i meaningful_count = (meaningful_count, - 1)"
| "count_loop (line # lines) i meaningful_count =
     (if search SECTION_TOKEN_RE line \<noteq> None then (meaningful_count, i)
      else count_loop lines (i + 1)
             (if is_meaningful_line line then meaningful_count + 1 else meaningful_count))"

definition count_meaningful_lines_before_section :: "pystr list \<Rightarrow> int \<times> int" where
  "count_meaningful_lines_before_section lines = count_loop lines 0 0"

definition page_label :: "int \<Rightarrow> pystr" where
  "page_label n = ustr ''Page: '' @ str_int n"

definition replace_page_markers :: "pystr \<Rightarrow> int \<Rightarrow> pystr \<times> int" where
  "replace_page_markers line page_counter =
     sub_st BRACKET_PAGE_RE (\<lambda>ps n. (page_label n, n + 1)) line page_counter"

section \<open>The output writer\<close>

text \<open>
  \<open>write_section_file\<close> computes the name of the output file from the stem of the input file
  and the section id, and writes the lines joined by newlines. The model returns the write:
  the name and the lines written; \<open>file_content\<close> is the text that reaches the disk.
\<close>

definition write_section_file :: "pystr \<Rightarrow> pystr \<Rightarrow> pystr list \<Rightarrow> pystr \<times> pystr list" where
  "write_section_file stem section lines =
     (let output_name =
            (if section = ustr ''UNKNOWN'' then stem @ ustr ''.txt''
             else if section = ustr ''BASE'' then stem @ ustr ''.txt''
             else stem @ ustr ''_'' @ section @ ustr ''.txt'')
      in (output_name, lines))"

fun file_content :: "pystr list \<Rightarrow> pystr" where
  "file_content [] = []"
| "file_content [l] = l"
| "file_content (l # ls) = l @ ch CHR 0x0A # file_content ls"

section \<open>The segmentation engine\<close>

record engine =
  output_files :: "(pystr \<times> pystr list) list"
  current_lines :: "pystr list"
  current_section :: pystr
  page_counter :: int
  last_page_marker_line :: "pystr option"
  section_counter :: int

text \<open>
  The backward loop \<open>for i in range(len(current_lines) - 1, -1, -1)\<close>: the last line of the
  buffer in which \<open>BRACKET_PAGE_RE\<close> is found is popped; \<open>None\<close> when the loop ends without
  a \<open>break\<close>.
\<close>

fun pop_last_marker :: "pystr list \<Rightarrow> (pystr \<times> pystr list) option" where
  "pop_last_marker [] = None"
| "pop_last_marker (l # ls) =
     (case pop_last_marker ls of
        Some (m, ls') \<Rightarrow> Some (m, l # ls')
      | None \<Rightarrow> if search BRACKET_PAGE_RE l \<noteq> None then Some (l, ls) else None)"

text \<open>"Remove the last page marker from current file if it exists".\<close>

definition remove_last_marker :: "engine \<Rightarrow> engine" where
  "remove_last_marker st =
     (if last_page_marker_line st \<noteq> None \<and> current_lines st \<noteq> [] then
        (case pop_last_marker (current_lines st) of
           Some (m, ls') \<Rightarrow> st\<lparr>last_page_marker_line := Some m, current_lines := ls'\<rparr>
         | None \<Rightarrow> st)
      else st)"

text \<open>The pending line, re-rendered with \<open>Page: 1\<close>, opens the new buffer.\<close>

definition inject_marker :: "engine \<Rightarrow> engine" where
  "inject_marker st =
     (case last_page_marker_line st of
        None \<Rightarrow> st
      | Some l \<Rightarrow>
          st\<lparr>current_lines := current_lines st @ [sub BRACKET_PAGE_RE (\<lambda>ps. ustr ''Page: 1'') l],
             page_counter := 2,
             last_page_marker_line := None\<rparr>)"

text \<open>What the loop body does when the line holds the section token \<open>tok\<close>.\<close>

definition open_section :: "bool \<Rightarrow> pystr \<Rightarrow> pystr \<Rightarrow> engine \<Rightarrow> engine" where
  "open_section should_split_before_first stem tok st =
     (if section_counter st = 0 then
        (if should_split_before_first then
           (let st1 = remove_last_marker st;
                st2 = st1\<lparr>output_files :=
                            output_files st1 @ [write_section_file stem (ustr ''BASE'') (current_lines st1)],
                          current_section := tok,
                          current_lines := [],
                          page_counter := 1\<rparr>;
                st3 = inject_marker st2
            in st3\<lparr>section_counter := section_counter st3 + 1\<rparr>)
         else st\<lparr>current_section := tok, section_counter := section_counter st + 1\<rparr>)
      else
        (let st1 = remove_last_marker st;
             st2 = st1\<lparr>output_files :=
                         output_files st1 @
                           [write_section_file stem (current_section st1) (current_lines st1)],
                       current_section := tok,
                       current_lines := [],
                       page_counter := 1,
                       section_counter := 0\<rparr>;
             st3 = inject_marker st2
         in st3\<lparr>section_counter := section_counter st3 + 1\<rparr>))"

text \<open>One iteration of \<open>for line in lines\<close>.\<close>

definition step :: "bool \<Rightarrow> pystr \<Rightarrow> engine \<Rightarrow> pystr \<Rightarrow> engine" where
  "step should_split_before_first stem st line =
     (case process_line line of
        (processed_line, section_token, has_page_marker) \<Rightarrow>
          (let st1 = (case section_token of
                        None \<Rightarrow> st
                      | Some tok \<Rightarrow> open_section should_split_before_first stem tok st)
           in if has_page_marker then
                (case replace_page_markers processed_line (page_counter st1) of
                   (processed_line', page_counter') \<Rightarrow>
                     st1\<lparr>page_counter := page_counter',
                         last_page_marker_line :=
                           (if section_counter st1 > 0 then Some line
                            else last_page_marker_line st1),
                         current_lines := current_lines st1 @ [processed_line']\<rparr>)
              else st1\<lparr>current_lines := current_lines st1 @ [processed_line]\<rparr>))"

definition init_engine :: engine where
  "init_engine =
     \<lparr>output_files = [], current_lines = [], current_section = ustr ''UNKNOWN'',
      page_counter = 1, last_page_marker_line = None, section_counter = 0\<rparr>"

definition should_split :: "int \<Rightarrow> pystr list \<Rightarrow> bool" where
  "should_split content_threshold lines =
     (case count_meaningful_lines_before_section lines of
        (meaningful_count, first_section_line) \<Rightarrow>
          meaningful_count \<ge> content_threshold \<and> first_section_line > 0)"

definition scan :: "int \<Rightarrow> pystr \<Rightarrow> pystr list \<Rightarrow> engine" where
  "scan content_threshold stem lines =
     foldl (step (should_split content_threshold lines) stem) init_engine lines"

text \<open>
  \<open>process_file\<close> on the lines of the input file (\<open>content.splitlines()\<close>), for the file
  stem \<open>stem\<close> and the threshold of the processor: the writes, in the order they are made.
\<close>

definition process_file :: "int \<Rightarrow> pystr \<Rightarrow> pystr list \<Rightarrow> (pystr \<times> pystr list) list" where
  "process_file content_threshold stem lines =
     (let st = scan content_threshold stem lines
      in if current_lines st \<noteq> [] then
           output_files st @ [write_section_file stem (current_section st) (current_lines st)]
         else output_files st)"

text \<open>The default of the constructor argument \<open>content_threshold\<close>.\<close>

definition default_content_threshold :: int where
  "default_content_threshold = 50"

section \<open>The batch driver\<close>

text \<open>
  \<open>read_text\<close> and \<open>write_text\<close> can raise. An input file is its stem together with the
  lines read from it, or \<open>None\<close> when reading raises; \<open>writable name\<close> tells whether writing
  the output file \<open>name\<close> succeeds. The disk is the list of the files written so far, each
  with its content. An exception is a result \<open>Inl\<close>; the disk keeps what was written before.
\<close>

datatype io_error = ReadFailed pystr | WriteFailed pystr

type_synonym disk = "(pystr \<times> pystr) list"

text \<open>
  The writes of \<open>process_file\<close> are made one after the other while the lines are scanned, and
  nothing the scan computes depends on them: the first write that raises ends the call.
\<close>

fun perform_writes ::
  "(pystr \<Rightarrow> bool) \<Rightarrow> (pystr \<times> pystr list) list \<Rightarrow> disk \<Rightarrow> disk \<times> (io_error + unit)" where
  "perform_writes writable [] d = (d, Inr ())"
| "perform_writes writable ((name, lines) # ws) d =
     (if writable name then perform_writes writable ws (d @ [(name, file_content lines)])
      else (d, Inl (WriteFailed name)))"

definition process_file_io ::
  "int \<Rightarrow> (pystr \<Rightarrow> bool) \<Rightarrow> pystr \<times> pystr list option \<Rightarrow> disk \<Rightarrow> disk \<times> (io_error + nat)" where
  "process_file_io content_threshold writable input_file d =
     (case snd input_file of
        None \<Rightarrow> (d, Inl (ReadFailed (fst input_file)))
      | Some lines \<Rightarrow>
          (let ws = process_file content_threshold (fst input_file) lines
           in case perform_writes writable ws d of
                (d', Inl e) \<Rightarrow> (d', Inl e)
              | (d', Inr u) \<Rightarrow> (d', Inr (length ws))))"

text \<open>
  The loop \<open>for txt_file in txt_files\<close> of \<open>process_all_files\<close>: there is no handler around
  the call of \<open>process_file\<close>. The result is the list of the lines reported, one per file,
  as the stem and the number of its output files.
\<close>

fun files_loop ::
  "int \<Rightarrow> (pystr \<Rightarrow> bool) \<Rightarrow> (pystr \<times> pystr list option) list \<Rightarrow> (pystr \<times> nat) list \<Rightarrow> disk \<Rightarrow>
   disk \<times> (io_error + (pystr \<times> nat) list)" where
  "files_loop content_threshold writable [] report d = (d, Inr report)"
| "files_loop content_threshold writable (txt_file # txt_files) report d =
     (case process_file_io content_threshold writable txt_file d of
        (d', Inl e) \<Rightarrow> (d', Inl e)
      | (d', Inr n) \<Rightarrow>
          files_loop content_threshold writable txt_files (report @ [(fst txt_file, n)]) d')"

definition process_all_files ::
  "int \<Rightarrow> (pystr \<Rightarrow> bool) \<Rightarrow> (pystr \<times> pystr list option) list \<Rightarrow> disk \<Rightarrow>
   disk \<times> (io_error + (pystr \<times> nat) list)" where
  "process_all_files content_threshold writable txt_files d =
     (if txt_files = [] then (d, Inr [])
      else files_loop content_threshold writable txt_files [] d)"

section \<open>Notions used in the statements\<close>

text \<open>A line holds a bare page marker, a dotted marker, a section token.\<close>

definition has_bare :: "pystr \<Rightarrow> bool" where
  "has_bare s = (search BRACKET_PAGE_RE s \<noteq> None)"

definition has_dotted :: "pystr \<Rightarrow> bool" where
  "has_dotted s = (search BRACKET_WITH_DOT_RE s \<noteq> None)"

definition has_section_token :: "pystr \<Rightarrow> bool" where
  "has_section_token s = (search SECTION_TOKEN_RE s \<noteq> None)"

definition processed :: "pystr \<Rightarrow> pystr" where
  "processed line = fst (process_line line)"

definition section_of :: "pystr \<Rightarrow> pystr option" where
  "section_of line = fst (snd (process_line line))"

text \<open>
  The lines \<open>ps\<close> with \<open>replace_page_markers\<close> applied to one after the other, the counter
  going from each line to the next: what a buffer holds when it starts at counter \<open>n\<close>.
\<close>

fun number_pages :: "int \<Rightarrow> pystr list \<Rightarrow> pystr list \<times> int" where
  "number_pages n [] = ([], n)"
| "number_pages n (p # ps) =
     (case replace_page_markers p n of
        (p', n') \<Rightarrow> (case number_pages n' ps of (ps', n'') \<Rightarrow> (p' # ps', n'')))"

text \<open>The number of bare markers that \<open>BRACKET_PAGE_RE.sub\<close> finds in a line.\<close>

definition count_bare :: "pystr \<Rightarrow> nat" where
  "count_bare s = snd (sub_st BRACKET_PAGE_RE (\<lambda>ps (k::nat). ([], k + 1)) s 0)"

text \<open>
  The right sides that the text-variant collapse retains in a line, from left to right.
\<close>

definition variant_rights :: "pystr \<Rightarrow> pystr list" where
  "variant_rights line =
     snd (sub_st TEXT_VARIANT_RE (\<lambda>ps acc. (ps ! 3, acc @ [ps ! 3])) line [])"

text \<open>
  The brackets of a line are not nested: after \<open>[\<close> no \<open>[\<close> or \<open>{\<close> comes before the next
  \<open>]\<close>, and after \<open>{\<close> none before the next \<open>}\<close>. The first argument of \<open>flat_from\<close> is the
  bracket that is open, if any.
\<close>

definition is_opener :: "nat \<Rightarrow> bool" where
  "is_opener c = (c = ch CHR ''['' \<or> c = ch CHR ''{'')"

definition closer_of :: "nat \<Rightarrow> nat" where
  "closer_of c = (if c = ch CHR ''['' then ch CHR '']'' else ch CHR ''}'')"

fun flat_from :: "nat option \<Rightarrow> pystr \<Rightarrow> bool" where
  "flat_from opn [] = True"
| "flat_from opn (c # cs) =
     (if is_opener c then opn = None \<and> flat_from (Some c) cs
      else if opn \<noteq> None \<and> c = closer_of (the opn) then flat_from None cs
      else flat_from opn cs)"

definition flat :: "pystr \<Rightarrow> bool" where
  "flat line = flat_from None line"

section \<open>Properties of the matcher\<close>

lemmas pats =
  SECTION_TOKEN_RE_def SECTION_DASH_TOKEN_RE_def BRACKET_WITH_DOT_RE_def BRACKET_PAGE_RE_def
  TEXT_VARIANT_RE_def

lemma mt_length: "mt es s = Some (ps, r) \<Longrightarrow> length r \<le> length s"
proof (induction es s arbitrary: ps r rule: mt.induct)
  case (9 P es x xs)
  then show ?case
    by (auto split: if_splits option.splits prod.splits list.splits) fastforce+
qed (auto split: if_splits option.splits prod.splits list.splits; fastforce)+

lemma mt_concat: "mt es s = Some (ps, r) \<Longrightarrow> s = concat ps @ r"
  by (induction es s arbitrary: ps r rule: mt.induct)
     (auto split: if_splits option.splits prod.splits list.splits)

lemma mt_Lit_length: "mt (Lit a # es) (c # cs) = Some (ps, r) \<Longrightarrow> length r \<le> length cs"
  by (auto split: if_splits option.splits dest: mt_length)

lemma mt_Lit_Nil [simp]: "mt (Lit a # es) [] = None"
  by simp

lemma mt_Lit_hd: "mt (Lit a # es) (c # cs) = Some (ps, r) \<Longrightarrow> c = a"
  by (auto split: if_splits)

lemma plus_det:
  assumes "\<And>x xs. P x \<Longrightarrow> mt es (x # xs) = None"
  shows "mt (Plus P # es) s =
    (if takeWhile P s = [] then None
     else case mt es (dropWhile P s) of Some (ps, r) \<Rightarrow> Some (takeWhile P s # ps, r) | None \<Rightarrow> None)"
proof (induction s)
  case Nil
  then show ?case by simp
next
  case (Cons x xs)
  show ?case
  proof (cases "P x")
    case False
    then show ?thesis by simp
  next
    case True
    show ?thesis
    proof (cases "takeWhile P xs = []")
      case t: True
      then have "dropWhile P xs = xs"
        by (metis takeWhile_dropWhile_id append_Nil)
      with True t Cons show ?thesis by (simp split: option.splits)
    next
      case f: False
      then obtain y ys where xs: "xs = y # ys" and "P y" by (cases xs) (auto split: if_splits)
      then have "mt es xs = None" using assms by simp
      with True f Cons show ?thesis by (auto split: option.splits)
    qed
  qed
qed

lemma is_digit_bounds: "is_digit c \<Longrightarrow> 48 \<le> c \<and> (c \<le> 57 \<or> 1632 \<le> c)"
  unfolding is_digit_def nd_ranges_def by auto

lemma is_digit_ascii: "c < 1632 \<Longrightarrow> is_digit c = (48 \<le> c \<and> c \<le> 57)"
  unfolding is_digit_def nd_ranges_def by auto

lemma span_iff:
  "(takeWhile P w = ds \<and> dropWhile P w = rest) \<longleftrightarrow>
   (w = ds @ rest \<and> (\<forall>d\<in>set ds. P d) \<and> (rest = [] \<or> \<not> P (hd rest)))"
proof
  assume "takeWhile P w = ds \<and> dropWhile P w = rest"
  then show "w = ds @ rest \<and> (\<forall>d\<in>set ds. P d) \<and> (rest = [] \<or> \<not> P (hd rest))"
    by (metis takeWhile_dropWhile_id set_takeWhileD hd_dropWhile)
next
  assume a: "w = ds @ rest \<and> (\<forall>d\<in>set ds. P d) \<and> (rest = [] \<or> \<not> P (hd rest))"
  then show "takeWhile P w = ds \<and> dropWhile P w = rest"
    by (cases rest) (auto simp: takeWhile_tail dropWhile_append3)
qed

lemma sub_Nil [simp]: "sub es f [] = []"
  by (simp add: sub_def)

lemma sub_Cons:
  "sub (Lit a # es) f (c # cs) =
     (case mt (Lit a # es) (c # cs) of
        Some (ps, r) \<Rightarrow> f ps @ sub (Lit a # es) f r
      | None \<Rightarrow> c # sub (Lit a # es) f cs)"
  by (auto simp: sub_def split: option.splits prod.splits if_splits dest: mt_length)

lemma sub_st_Cons:
  "sub_st (Lit a # es) f (c # cs) st =
     (case mt (Lit a # es) (c # cs) of
        Some (ps, r) \<Rightarrow>
          (case f ps st of (t, st') \<Rightarrow>
             (case sub_st (Lit a # es) f r st' of (u, st'') \<Rightarrow> (t @ u, st'')))
      | None \<Rightarrow> (case sub_st (Lit a # es) f cs st of (u, st') \<Rightarrow> (c # u, st')))"
  by (auto split: option.splits prod.splits if_splits dest: mt_length)

declare sub_st.simps(2) [simp del]

text \<open>What a match of each pattern looks like.\<close>

lemma mt_BP_iff:
  "mt BRACKET_PAGE_RE s = Some (ps, r) \<longleftrightarrow>
   (\<exists>ds l. ds \<noteq> [] \<and> (\<forall>d\<in>set ds. is_digit d) \<and> is_lower l \<and>
      s = 91 # ds @ l # 93 # r \<and> ps = [[91], ds, [l], [93]])"
proof -
  have rej: "\<And>x xs. is_digit x \<Longrightarrow> mt [Cls is_lower, Lit 93] (x # xs) = None"
    by (auto simp: is_lower_def dest: is_digit_bounds)
  show ?thesis
  proof (cases s)
    case Nil
    then show ?thesis by (simp add: pats)
  next
    case (Cons c w)
    have nd: "\<And>l. is_lower l \<Longrightarrow> \<not> is_digit l"
      by (auto simp: is_lower_def dest: is_digit_bounds)
    show ?thesis
    proof
      assume m: "mt BRACKET_PAGE_RE s = Some (ps, r)"
      then have c: "c = 91" and tw: "takeWhile is_digit w \<noteq> []"
        and m2: "mt [Cls is_lower, Lit 93] (dropWhile is_digit w) \<noteq> None"
        using Cons by (auto simp: pats plus_det[OF rej] split: if_splits option.splits)
      from m2 obtain l r' where dw: "dropWhile is_digit w = l # 93 # r'" and l: "is_lower l"
        by (cases "dropWhile is_digit w"; cases "tl (dropWhile is_digit w)") (auto split: if_splits)
      from m Cons c tw dw l have "r = r'" "ps = [[91], takeWhile is_digit w, [l], [93]]"
        by (auto simp: pats plus_det[OF rej])
      moreover have "w = takeWhile is_digit w @ l # 93 # r'"
        using dw by (metis takeWhile_dropWhile_id)
      ultimately show "\<exists>ds l. ds \<noteq> [] \<and> (\<forall>d\<in>set ds. is_digit d) \<and> is_lower l \<and>
        s = 91 # ds @ l # 93 # r \<and> ps = [[91], ds, [l], [93]]"
        using tw l c Cons by (metis set_takeWhileD)
    next
      assume "\<exists>ds l. ds \<noteq> [] \<and> (\<forall>d\<in>set ds. is_digit d) \<and> is_lower l \<and>
        s = 91 # ds @ l # 93 # r \<and> ps = [[91], ds, [l], [93]]"
      then obtain ds l where ds: "ds \<noteq> []" "\<forall>d\<in>set ds. is_digit d" and l: "is_lower l"
        and s: "s = 91 # ds @ l # 93 # r" and ps: "ps = [[91], ds, [l], [93]]" by blast
      have "takeWhile is_digit (ds @ l # 93 # r) = ds \<and> dropWhile is_digit (ds @ l # 93 # r) = l # 93 # r"
        using ds l nd by (subst span_iff) auto
      then show "mt BRACKET_PAGE_RE s = Some (ps, r)"
        using ds l s ps by (simp add: pats plus_det[OF rej])
    qed
  qed
qed

section \<open>Searching and substituting\<close>

lemma sub_st_None:
  "mt (Lit a # es) (c # cs) = None \<Longrightarrow>
   sub_st (Lit a # es) f (c # cs) st =
     (c # fst (sub_st (Lit a # es) f cs st), snd (sub_st (Lit a # es) f cs st))"
  by (simp only: sub_st_Cons) (simp split: prod.splits)

lemma sub_st_Some:
  "mt (Lit a # es) (c # cs) = Some (ps, r) \<Longrightarrow>
   sub_st (Lit a # es) f (c # cs) st =
     (fst (f ps st) @ fst (sub_st (Lit a # es) f r (snd (f ps st))),
      snd (sub_st (Lit a # es) f r (snd (f ps st))))"
  by (simp only: sub_st_Cons) (simp split: prod.splits)

lemma sub_None:
  "mt (Lit a # es) (c # cs) = None \<Longrightarrow> sub (Lit a # es) f (c # cs) = c # sub (Lit a # es) f cs"
  by (simp add: sub_def sub_st_None)

lemma sub_Some:
  "mt (Lit a # es) (c # cs) = Some (ps, r) \<Longrightarrow>
   sub (Lit a # es) f (c # cs) = f ps @ sub (Lit a # es) f r"
  by (simp add: sub_def sub_st_Some)

lemma mt_Lit_neq: "c \<noteq> a \<Longrightarrow> mt (Lit a # es) (c # cs) = None"
  by simp

lemma search_Cons_None:
  "search (Lit a # es) (c # cs) = None \<longleftrightarrow>
   mt (Lit a # es) (c # cs) = None \<and> search (Lit a # es) cs = None"
  by (auto split: option.splits)

lemma search_append_None:
  "search (Lit a # es) (u @ v) = None \<Longrightarrow> search (Lit a # es) v = None"
  by (induction u) (auto split: option.splits if_splits)

lemma search_skip:
  "a \<notin> set u \<Longrightarrow> search (Lit a # es) (u @ v) = search (Lit a # es) v"
  by (induction u) (auto split: option.splits)

lemma sub_st_id:
  "search (Lit a # es) s = None \<Longrightarrow> sub_st (Lit a # es) f s st = (s, st)"
proof (induction s)
  case Nil
  then show ?case by simp
next
  case (Cons c cs)
  then have "mt (Lit a # es) (c # cs) = None" "search (Lit a # es) cs = None"
    by (auto split: option.splits)
  with Cons.IH show ?case by (simp add: sub_st_None)
qed

lemma sub_id: "search (Lit a # es) s = None \<Longrightarrow> sub (Lit a # es) f s = s"
  by (simp add: sub_def sub_st_id)

lemma sub_st_skip:
  "a \<notin> set u \<Longrightarrow>
   sub_st (Lit a # es) f (u @ v) st =
     (u @ fst (sub_st (Lit a # es) f v st), snd (sub_st (Lit a # es) f v st))"
proof (induction u)
  case Nil
  then show ?case by simp
next
  case (Cons c u)
  then have "mt (Lit a # es) (c # u @ v) = None" by auto
  with Cons show ?case by (simp add: sub_st_None)
qed

text \<open>
  Where the text produced by a substitution starts: the input up to its first opening
  character is copied; then comes that character itself, or a replacement.
\<close>

lemma sub_st_head:
  assumes "\<forall>ps st. fst (f ps st) \<noteq> [] \<and> hd (fst (f ps st)) = b"
  shows "fst (sub_st (Lit a # es) f (a # cs) st) \<noteq> [] \<and>
         (hd (fst (sub_st (Lit a # es) f (a # cs) st)) = a \<or>
          hd (fst (sub_st (Lit a # es) f (a # cs) st)) = b)"
proof (cases "mt (Lit a # es) (a # cs)")
  case None
  then show ?thesis by (simp add: sub_st_None)
next
  case (Some m)
  obtain ps r where m: "m = (ps, r)" by (cases m)
  show ?thesis using Some m assms by (simp add: sub_st_Some)
qed

lemma sub_st_shape:
  assumes "\<forall>ps st. fst (f ps st) \<noteq> [] \<and> hd (fst (f ps st)) = b"
  shows "\<exists>pre z0 z. s = pre @ z0 \<and> fst (sub_st (Lit a # es) f s st) = pre @ z \<and> a \<notin> set pre \<and>
           (z = [] \<and> z0 = [] \<or> z \<noteq> [] \<and> (hd z = a \<or> hd z = b))"
proof (induction s)
  case Nil
  show ?case
    by (rule exI[of _ "[]"], rule exI[of _ "[]"], rule exI[of _ "[]"]) simp
next
  case (Cons c cs)
  show ?case
  proof (cases "c = a")
    case True
    show ?thesis
      apply (rule exI[of _ "[]"], rule exI[of _ "c # cs"])
      apply (rule exI[of _ "fst (sub_st (Lit a # es) f (c # cs) st)"])
      using sub_st_head[OF assms, of a es cs st] True apply simp
      done
  next
    case False
    from Cons obtain pre z0 z where h: "cs = pre @ z0"
      "fst (sub_st (Lit a # es) f cs st) = pre @ z" "a \<notin> set pre"
      "z = [] \<and> z0 = [] \<or> z \<noteq> [] \<and> (hd z = a \<or> hd z = b)" by blast
    have m: "mt (Lit a # es) (c # cs) = None" using False by simp
    have o: "fst (sub_st (Lit a # es) f (c # cs) st) = (c # pre) @ z"
      using m h(2) by (simp add: sub_st_None)
    show ?thesis
      apply (rule exI[of _ "c # pre"], rule exI[of _ z0], rule exI[of _ z])
      using h o False apply simp
      done
  qed
qed

section \<open>A substitution by labels creates no marker\<close>

text \<open>
  The target pattern \<open>T\<close> matches tokens that start with the character \<open>a\<close> and hold neither
  \<open>a\<close> nor \<open>b\<close> after it; the replacements start with \<open>b\<close> and hold no \<open>a\<close>. Then no
  token of \<open>T\<close> appears in the output of the substitution that was not in its input.
\<close>

lemma gap_match:
  assumes tok: "\<forall>s ps r. mt T s = Some (ps, r) \<longrightarrow>
      (\<exists>body. s = a # body @ r \<and> a \<notin> set body \<and> b \<notin> set body \<and> (\<forall>r'. mt T (a # body @ r') \<noteq> None))"
    and lab: "\<forall>ps st. fst (f ps st) \<noteq> [] \<and> hd (fst (f ps st)) = b"
    and m: "mt T (a # fst (sub_st (Lit a # es) f cs st)) \<noteq> None"
  shows "mt T (a # cs) \<noteq> None"
proof -
  obtain pre z0 z where h: "cs = pre @ z0" "fst (sub_st (Lit a # es) f cs st) = pre @ z"
      "a \<notin> set pre" "z = [] \<and> z0 = [] \<or> z \<noteq> [] \<and> (hd z = a \<or> hd z = b)"
    using sub_st_shape[OF lab, of cs a es st] by blast
  from m obtain ps r where "mt T (a # pre @ z) = Some (ps, r)" using h(2) by auto
  from tok this obtain body where b: "pre @ z = body @ r" "a \<notin> set body" "b \<notin> set body"
      "\<forall>r'. mt T (a # body @ r') \<noteq> None" by blast
  from b(1) obtain us where us: "pre = body @ us \<and> us @ z = r \<or> pre @ us = body \<and> z = us @ r"
    by (auto simp: append_eq_append_conv2)
  have "\<exists>q. pre = body @ q"
  proof (cases "pre = body @ us \<and> us @ z = r")
    case True
    then show ?thesis by blast
  next
    case False
    with us have u: "pre @ us = body" "z = us @ r" by auto
    show ?thesis
    proof (cases us)
      case Nil
      with u show ?thesis by auto
    next
      case (Cons x xs)
      with u have "z \<noteq> []" "hd z = x" "x \<in> set body" by auto
      with h(4) b(2,3) show ?thesis by auto
    qed
  qed
  then obtain q where "pre = body @ q" by blast
  with h(1) have "cs = body @ (q @ z0)" by simp
  with b(4) show ?thesis by simp
qed

lemma no_new_match:
  assumes tok: "\<forall>s ps r. mt (Lit a # et) s = Some (ps, r) \<longrightarrow>
      (\<exists>body. s = a # body @ r \<and> a \<notin> set body \<and> b \<notin> set body \<and>
        (\<forall>r'. mt (Lit a # et) (a # body @ r') \<noteq> None))"
    and lab: "\<forall>ps st. fst (f ps st) \<noteq> [] \<and> hd (fst (f ps st)) = b \<and> a \<notin> set (fst (f ps st))"
    and pre: "search (Lit a # et) s = None \<or> et = es"
  shows "search (Lit a # et) (fst (sub_st (Lit a # es) f s st)) = None"
  using pre
proof (induction s arbitrary: st rule: length_induct)
  case (1 s)
  have lab': "\<forall>ps st. fst (f ps st) \<noteq> [] \<and> hd (fst (f ps st)) = b" using lab by blast
  have IH: "\<And>ys st'. length ys < length s \<Longrightarrow> search (Lit a # et) ys = None \<or> et = es \<Longrightarrow>
      search (Lit a # et) (fst (sub_st (Lit a # es) f ys st')) = None"
    by (rule "1.IH"[rule_format])
  show ?case
  proof (cases s)
    case Nil
    then show ?thesis by simp
  next
    case (Cons c cs)
    show ?thesis
    proof (cases "mt (Lit a # es) (c # cs)")
      case None
      have p: "search (Lit a # et) cs = None \<or> et = es"
        using "1.prems" Cons by (auto split: option.splits)
      have ih: "search (Lit a # et) (fst (sub_st (Lit a # es) f cs st)) = None"
        using IH[of cs st] p Cons by simp
      have n0: "mt (Lit a # et) (c # cs) = None"
        using "1.prems" None Cons by (auto split: option.splits)
      have "mt (Lit a # et) (c # fst (sub_st (Lit a # es) f cs st)) = None"
      proof (cases "c = a")
        case True
        have "mt (Lit a # et) (a # fst (sub_st (Lit a # es) f cs st)) \<noteq> None \<Longrightarrow>
              mt (Lit a # et) (a # cs) \<noteq> None"
          by (rule gap_match[OF tok lab'])
        with n0 True show ?thesis by blast
      next
        case False
        then show ?thesis by (rule mt_Lit_neq)
      qed
      with ih None Cons show ?thesis by (simp add: sub_st_None)
    next
      case (Some m)
      obtain ps r where m: "m = (ps, r)" by (cases m)
      have len: "length r \<le> length cs" using Some m mt_Lit_length by blast
      have cr: "c # cs = concat ps @ r" using Some m mt_concat by blast
      have p: "search (Lit a # et) r = None \<or> et = es"
        using "1.prems" Cons cr search_append_None[of a et "concat ps" r] by auto
      have ih: "search (Lit a # et) (fst (sub_st (Lit a # es) f r (snd (f ps st)))) = None"
        using IH[of r "snd (f ps st)"] p len Cons by simp
      have "a \<notin> set (fst (f ps st))" using lab by blast
      with ih Some m Cons show ?thesis by (simp add: sub_st_Some search_skip)
    qed
  qed
qed

section \<open>Bare markers after the substitutions\<close>

lemma BP_eq: "BRACKET_PAGE_RE = Lit 91 # [Plus is_digit, Cls is_lower, Lit 93]"
  by (simp add: pats)

lemma digit_not_special: "is_digit d \<Longrightarrow> d \<noteq> 91 \<and> d \<noteq> 80 \<and> d \<noteq> 93 \<and> d \<noteq> 46 \<and> \<not> is_lower d"
  by (auto simp: is_lower_def dest: is_digit_bounds)

lemma tok_BP:
  "\<forall>s ps r. mt (Lit 91 # [Plus is_digit, Cls is_lower, Lit 93]) s = Some (ps, r) \<longrightarrow>
     (\<exists>body. s = 91 # body @ r \<and> 91 \<notin> set body \<and> 80 \<notin> set body \<and>
        (\<forall>r'. mt (Lit 91 # [Plus is_digit, Cls is_lower, Lit 93]) (91 # body @ r') \<noteq> None))"
proof (intro allI impI)
  fix s ps r
  assume "mt (Lit 91 # [Plus is_digit, Cls is_lower, Lit 93]) s = Some (ps, r)"
  then have "mt BRACKET_PAGE_RE s = Some (ps, r)" by (simp only: BP_eq)
  then obtain ds l where h: "ds \<noteq> []" "\<forall>d\<in>set ds. is_digit d" "is_lower l"
      "s = 91 # ds @ l # 93 # r" by (auto simp: mt_BP_iff)
  have a: "s = 91 # (ds @ [l, 93]) @ r" using h by simp
  have b: "91 \<notin> set (ds @ [l, 93]) \<and> 80 \<notin> set (ds @ [l, 93])"
    using h digit_not_special by (auto simp: is_lower_def)
  have c: "\<forall>r'. mt (Lit 91 # [Plus is_digit, Cls is_lower, Lit 93]) (91 # (ds @ [l, 93]) @ r') \<noteq> None"
  proof
    fix r'
    have "mt BRACKET_PAGE_RE (91 # ds @ l # 93 # r') = Some ([[91], ds, [l], [93]], r')"
      using h by (subst mt_BP_iff) blast
    then show "mt (Lit 91 # [Plus is_digit, Cls is_lower, Lit 93]) (91 # (ds @ [l, 93]) @ r') \<noteq> None"
      by (simp only: BP_eq[symmetric]) simp
  qed
  show "\<exists>body. s = 91 # body @ r \<and> 91 \<notin> set body \<and> 80 \<notin> set body \<and>
        (\<forall>r'. mt (Lit 91 # [Plus is_digit, Cls is_lower, Lit 93]) (91 # body @ r') \<noteq> None)"
    using a b c by blast
qed

lemma set_str_nat: "set (str_nat n) \<subseteq> {48..57}"
proof (induction n rule: str_nat.induct)
  case (1 n)
  show ?case
  proof (cases "n < 10")
    case True
    then show ?thesis by (subst str_nat.simps) simp
  next
    case False
    have "n mod 10 < 10" by simp
    then have "48 + n mod 10 \<in> {48..57}" by auto
    with False 1 show ?thesis by (subst str_nat.simps) simp
  qed
qed

lemma page_label_props:
  "page_label n \<noteq> [] \<and> hd (page_label n) = 80 \<and> 91 \<notin> set (page_label n)"
proof -
  have "\<And>k. 91 \<notin> set (str_nat k)"
    using set_str_nat by fastforce
  then have "91 \<notin> set (str_int n)"
    by (simp add: str_int_def)
  then show ?thesis by (auto simp: page_label_def ustr_def)
qed

lemma replace_page_markers_no_bare: "\<not> has_bare (fst (replace_page_markers s n))"
proof -
  have lab: "\<forall>ps st. fst ((\<lambda>ps n. (page_label n, n + 1)) ps st) \<noteq> [] \<and>
      hd (fst ((\<lambda>ps n. (page_label n, n + 1)) ps st)) = 80 \<and>
      91 \<notin> set (fst ((\<lambda>ps n. (page_label n, n + 1)) ps st))"
    using page_label_props by simp
  have "search (Lit 91 # [Plus is_digit, Cls is_lower, Lit 93])
          (fst (sub_st (Lit 91 # [Plus is_digit, Cls is_lower, Lit 93])
                  (\<lambda>ps n. (page_label n, n + 1)) s n)) = None"
    by (rule no_new_match[OF tok_BP lab]) simp
  then show ?thesis
    by (simp only: has_bare_def replace_page_markers_def BP_eq) simp
qed

lemma page_one_no_bare: "\<not> has_bare (sub BRACKET_PAGE_RE (\<lambda>ps. ustr ''Page: 1'') l)"
proof -
  have lab: "\<forall>ps st. fst ((\<lambda>ps (u::unit). (ustr ''Page: 1'', u)) ps st) \<noteq> [] \<and>
      hd (fst ((\<lambda>ps (u::unit). (ustr ''Page: 1'', u)) ps st)) = 80 \<and>
      91 \<notin> set (fst ((\<lambda>ps (u::unit). (ustr ''Page: 1'', u)) ps st))"
    by (simp add: ustr_def)
  have "search (Lit 91 # [Plus is_digit, Cls is_lower, Lit 93])
          (fst (sub_st (Lit 91 # [Plus is_digit, Cls is_lower, Lit 93])
                  (\<lambda>ps (u::unit). (ustr ''Page: 1'', u)) l ())) = None"
    by (rule no_new_match[OF tok_BP lab]) simp
  then show ?thesis
    by (simp only: has_bare_def sub_def BP_eq) simp
qed

lemma replace_page_markers_id: "\<not> has_bare s \<Longrightarrow> replace_page_markers s n = (s, n)"
  by (simp add: has_bare_def replace_page_markers_def BP_eq sub_st_id)

section \<open>The loop body\<close>

lemma process_line_eq:
  "process_line line = (processed line, section_of line, has_bare (processed line))"
  by (simp add: process_line_def processed_def section_of_def has_bare_def Let_def)

lemma step_eq:
  "step ss stem st line =
     (let st1 = (case section_of line of None \<Rightarrow> st | Some tok \<Rightarrow> open_section ss stem tok st)
      in st1\<lparr>page_counter := snd (replace_page_markers (processed line) (page_counter st1)),
             last_page_marker_line :=
               (if has_bare (processed line) \<and> section_counter st1 > 0 then Some line
                else last_page_marker_line st1),
             current_lines :=
               current_lines st1 @ [fst (replace_page_markers (processed line) (page_counter st1))]\<rparr>)"
  by (cases "has_bare (processed line)")
     (simp_all add: step_def process_line_eq Let_def replace_page_markers_id split: prod.splits)

lemma snd_write [simp]: "snd (write_section_file stem sec ls) = ls"
  by (simp add: write_section_file_def)

lemma pop_last_marker_set:
  "pop_last_marker ls = Some (m, ls') \<Longrightarrow> set ls' \<subseteq> set ls \<and> m \<in> set ls"
  by (induction ls arbitrary: m ls') (auto split: option.splits if_splits)

lemma pop_last_marker_None:
  "pop_last_marker ls = None \<longleftrightarrow> (\<forall>l\<in>set ls. \<not> has_bare l)"
  by (induction ls) (auto simp: has_bare_def split: option.splits if_splits)

lemma remove_last_marker_clean:
  "\<forall>l\<in>set (current_lines st). \<not> has_bare l \<Longrightarrow> remove_last_marker st = st"
  by (simp add: remove_last_marker_def pop_last_marker_None[THEN iffD2] split: option.splits)

text \<open>
  While no line of the buffer holds a bare marker, the backward search finds nothing, and a
  section token has this effect.
\<close>

lemma open_section_eq:
  assumes "\<forall>l\<in>set (current_lines st). \<not> has_bare l"
  shows "open_section ss stem tok st =
     (if section_counter st = 0 \<and> \<not> ss
      then st\<lparr>current_section := tok, section_counter := section_counter st + 1\<rparr>
      else st\<lparr>output_files :=
                 output_files st @
                   [write_section_file stem
                      (if section_counter st = 0 then ustr ''BASE'' else current_section st)
                      (current_lines st)],
               current_section := tok,
               current_lines :=
                 (case last_page_marker_line st of
                    None \<Rightarrow> []
                  | Some l \<Rightarrow> [sub BRACKET_PAGE_RE (\<lambda>ps. ustr ''Page: 1'') l]),
               page_counter := (case last_page_marker_line st of None \<Rightarrow> 1 | Some l \<Rightarrow> 2),
               last_page_marker_line := None,
               section_counter := (if section_counter st = 0 then section_counter st + 1 else 1)\<rparr>)"
  by (cases "last_page_marker_line st")
     (simp_all add: open_section_def remove_last_marker_clean[OF assms] inject_marker_def Let_def)

lemma open_section_clean:
  assumes "\<forall>l\<in>set (current_lines st). \<not> has_bare l"
    and "\<forall>w\<in>set (output_files st). \<forall>l\<in>set (snd w). \<not> has_bare l"
  shows "(\<forall>l\<in>set (current_lines (open_section ss stem tok st)). \<not> has_bare l) \<and>
         (\<forall>w\<in>set (output_files (open_section ss stem tok st)). \<forall>l\<in>set (snd w). \<not> has_bare l)"
  using assms page_one_no_bare
  by (auto simp: open_section_eq[OF assms(1)] split: option.splits)

lemma step_clean:
  assumes "\<forall>l\<in>set (current_lines st). \<not> has_bare l"
    and "\<forall>w\<in>set (output_files st). \<forall>l\<in>set (snd w). \<not> has_bare l"
  shows "(\<forall>l\<in>set (current_lines (step ss stem st line)). \<not> has_bare l) \<and>
         (\<forall>w\<in>set (output_files (step ss stem st line)). \<forall>l\<in>set (snd w). \<not> has_bare l)"
proof (cases "section_of line")
  case None
  with assms replace_page_markers_no_bare show ?thesis
    by (auto simp: step_eq Let_def)
next
  case (Some tok)
  with open_section_clean[OF assms, of ss stem tok] replace_page_markers_no_bare show ?thesis
    by (auto simp: step_eq Let_def)
qed

lemma foldl_step_clean:
  assumes "\<forall>l\<in>set (current_lines st). \<not> has_bare l"
    and "\<forall>w\<in>set (output_files st). \<forall>l\<in>set (snd w). \<not> has_bare l"
  shows "(\<forall>l\<in>set (current_lines (foldl (step ss stem) st lines)). \<not> has_bare l) \<and>
         (\<forall>w\<in>set (output_files (foldl (step ss stem) st lines)). \<forall>l\<in>set (snd w). \<not> has_bare l)"
  using assms
proof (induction lines arbitrary: st)
  case Nil
  then show ?case by simp
next
  case (Cons line lines)
  from step_clean[OF Cons.prems, of ss stem line] show ?case
    by (simp only: foldl_Cons) (rule Cons.IH, simp_all)
qed

lemma scan_clean:
  "(\<forall>l\<in>set (current_lines (scan thr stem lines)). \<not> has_bare l) \<and>
   (\<forall>w\<in>set (output_files (scan thr stem lines)). \<forall>l\<in>set (snd w). \<not> has_bare l)"
  unfolding scan_def by (rule foldl_step_clean) (simp_all add: init_engine_def)

section \<open>Evaluation on concrete documents\<close>

lemmas evals =
  process_file_def scan_def should_split_def count_meaningful_lines_before_section_def
  is_meaningful_line_def strip_def is_space_def space_ranges_def
  step_def open_section_def inject_marker_def remove_last_marker_def init_engine_def
  write_section_file_def replace_page_markers_def page_label_def str_int_def str_nat.simps
  process_line_def collapse_variants_def sub_def sub_st.simps(2) pats ustr_def
  is_digit_def nd_ranges_def is_lower_def Let_def
  has_bare_def has_dotted_def has_section_token_def processed_def section_of_def

section \<open>Page markers before the first section\<close>

text \<open>
  C1, as the code has it. A line whose processed form holds a bare page marker has every
  marker replaced by a \<open>Page: N\<close> label before it is appended to the buffer, whether or not a
  section has been opened: no line of any output file holds a bare marker. What waits for
  \<open>section_counter > 0\<close> is only the recording of the raw line as last page-marker line: a
  line without section token that is processed while \<open>section_counter\<close> is \<open>0\<close> changes the
  page counter and the buffer, and nothing else.
\<close>

theorem markers_replaced_in_every_buffer:
  "(\<forall>w\<in>set (process_file content_threshold stem lines). \<forall>l\<in>set (snd w). \<not> has_bare l) \<and>
   (section_counter st = 0 \<and> section_of line = None \<longrightarrow>
      step ss stem st line =
        st\<lparr>page_counter := snd (replace_page_markers (processed line) (page_counter st)),
           current_lines :=
             current_lines st @ [fst (replace_page_markers (processed line) (page_counter st))]\<rparr>)"
proof
  show "\<forall>w\<in>set (process_file content_threshold stem lines). \<forall>l\<in>set (snd w). \<not> has_bare l"
    using scan_clean[of content_threshold stem lines]
    by (auto simp: process_file_def Let_def)
  show "section_counter st = 0 \<and> section_of line = None \<longrightarrow>
      step ss stem st line =
        st\<lparr>page_counter := snd (replace_page_markers (processed line) (page_counter st)),
           current_lines :=
             current_lines st @ [fst (replace_page_markers (processed line) (page_counter st))]\<rparr>"
    by (simp add: step_eq)
qed

theorem markers_replaced_in_every_buffer_witness:
  "(ustr ''f.txt'', [ustr ''Page: 1x'']) \<in> set (process_file 50 (ustr ''f'') [ustr ''[1a]x'']) \<and>
   \<not> has_bare (ustr ''Page: 1x'') \<and>
   section_counter init_engine = 0 \<and> section_of (ustr ''[1a]x'') = None \<and>
   step False (ustr ''f'') init_engine (ustr ''[1a]x'') =
     init_engine\<lparr>page_counter := 2, current_lines := [ustr ''Page: 1x'']\<rparr>"
proof -
  have a: "process_file 50 (ustr ''f'') [ustr ''[1a]x''] = [(ustr ''f.txt'', [ustr ''Page: 1x''])]"
    by (simp add: evals)
  have b: "section_counter init_engine = 0 \<and> section_of (ustr ''[1a]x'') = None"
    by (simp add: evals)
  have c: "replace_page_markers (processed (ustr ''[1a]x'')) (page_counter init_engine) =
      (ustr ''Page: 1x'', 2)"
    by (simp add: evals)
  have d: "current_lines init_engine = []"
    by (simp add: init_engine_def)
  from markers_replaced_in_every_buffer
    [of 50 "ustr ''f''" "[ustr ''[1a]x'']" init_engine "ustr ''[1a]x''" False]
  show ?thesis using a b c d by simp
qed

theorem marker_before_first_section_counterexample:
  "section_counter init_engine = 0 \<and>
   section_counter (step False (ustr ''f'') init_engine (ustr ''[1a]x'')) = 0 \<and>
   current_lines (step False (ustr ''f'') init_engine (ustr ''[1a]x'')) = [ustr ''Page: 1x''] \<and>
   current_lines (step False (ustr ''f'') init_engine (ustr ''[1a]x'')) \<noteq> [ustr ''[1a]x''] \<and>
   process_file 50 (ustr ''f'') [ustr ''[1a]x''] = [(ustr ''f.txt'', [ustr ''Page: 1x''])]"
  by (simp add: evals)

section \<open>The flush at the end of the document\<close>

lemma step_current_lines: "current_lines (step ss stem st line) \<noteq> []"
  by (simp add: step_eq Let_def)

lemma foldl_step_current_lines:
  "lines \<noteq> [] \<Longrightarrow> current_lines (foldl (step ss stem) st lines) \<noteq> []"
  by (induction lines rule: rev_induct) (simp_all add: step_current_lines)

text \<open>
  C5, as the code has it. At the end of the document the open buffer is flushed under its
  current section id only if it is not empty (\<open>if current_lines:\<close>). Every scanned line is
  appended to the buffer, so the buffer is empty at the end exactly when the document has no
  line: then no file is written; otherwise the last write is the open buffer.
\<close>

theorem final_flush_only_when_nonempty:
  "(lines = [] \<longrightarrow> process_file content_threshold stem lines = []) \<and>
   (lines \<noteq> [] \<longrightarrow>
      current_lines (scan content_threshold stem lines) \<noteq> [] \<and>
      process_file content_threshold stem lines =
        output_files (scan content_threshold stem lines) @
          [write_section_file stem (current_section (scan content_threshold stem lines))
             (current_lines (scan content_threshold stem lines))])"
proof (cases "lines = []")
  case True
  then show ?thesis by (simp add: process_file_def scan_def init_engine_def)
next
  case False
  then have "current_lines (scan content_threshold stem lines) \<noteq> []"
    unfolding scan_def by (rule foldl_step_current_lines)
  with False show ?thesis by (simp add: process_file_def Let_def)
qed

theorem final_flush_only_when_nonempty_witness:
  "process_file 50 (ustr ''f'') [] = [] \<and>
   [ustr ''x''] \<noteq> [] \<and>
   current_lines (scan 50 (ustr ''f'') [ustr ''x'']) \<noteq> [] \<and>
   process_file 50 (ustr ''f'') [ustr ''x''] = [(ustr ''f.txt'', [ustr ''x''])]"
proof -
  have a: "scan 50 (ustr ''f'') [ustr ''x''] = init_engine\<lparr>current_lines := [ustr ''x'']\<rparr>"
    by (simp add: evals)
  have b: "write_section_file (ustr ''f'') (current_section init_engine) [ustr ''x''] =
      (ustr ''f.txt'', [ustr ''x''])"
    by (simp add: evals)
  have c: "output_files init_engine = []"
    by (simp add: init_engine_def)
  from final_flush_only_when_nonempty[of "[]" 50 "ustr ''f''"]
    final_flush_only_when_nonempty[of "[ustr ''x'']" 50 "ustr ''f''"]
  show ?thesis using a b c by simp
qed

theorem empty_buffer_not_flushed_counterexample:
  "current_section (scan 50 (ustr ''f'') []) = ustr ''UNKNOWN'' \<and>
   current_lines (scan 50 (ustr ''f'') []) = [] \<and>
   process_file 50 (ustr ''f'') [] = []"
  by (simp add: evals)

section \<open>The page-marker line at a section boundary\<close>

text \<open>
  C2 on the document \<open>{D1}a\<close>, \<open>[1a]b\<close>, \<open>{D2}c\<close>. At \<open>{D2}\<close> the line \<open>[1a]b\<close> is pending.
  The buffer holds it as \<open>Page: 1b\<close>, in which the backward search finds no marker, so
  nothing is popped; the pending raw line is rendered again into the new buffer. The line is
  in both files.
\<close>

theorem relocated_line_is_duplicated:
  "process_file 50 (ustr ''f'') [ustr ''{D1}a'', ustr ''[1a]b'', ustr ''{D2}c''] =
     [(ustr ''f_D1.txt'', [ustr ''a'', ustr ''Page: 1b'']),
      (ustr ''f_D2.txt'', [ustr ''Page: 1b'', ustr ''c''])] \<and>
   concat (map snd (process_file 50 (ustr ''f'') [ustr ''{D1}a'', ustr ''[1a]b'', ustr ''{D2}c''])) =
     [ustr ''a'', ustr ''Page: 1b'', ustr ''Page: 1b'', ustr ''c''] \<and>
   map processed [ustr ''{D1}a'', ustr ''[1a]b'', ustr ''{D2}c''] =
     [ustr ''a'', ustr ''[1a]b'', ustr ''c'']"
  by (simp add: evals)

text \<open>
  In every state that the scan reaches, no line of the buffer holds a bare marker: the
  backward search of the relocation never finds a line.
\<close>

lemma backward_search_finds_nothing:
  "pop_last_marker (current_lines (foldl (step ss stem) init_engine lines)) = None"
proof -
  have "\<forall>l\<in>set (current_lines (foldl (step ss stem) init_engine lines)). \<not> has_bare l"
    using foldl_step_clean[of init_engine ss stem lines] by (simp add: init_engine_def)
  then show ?thesis by (simp add: pop_last_marker_None)
qed

text \<open>
  C3 on the same document, at the boundary \<open>{D2}\<close>: a line is pending, the backward search
  over the buffer finds none, and still the new buffer opens with a \<open>Page: 1\<close> line and the
  page counter \<open>2\<close>.
\<close>

theorem relocation_without_found_line:
  "last_page_marker_line (foldl (step False (ustr ''f'')) init_engine [ustr ''{D1}a'', ustr ''[1a]b'']) =
     Some (ustr ''[1a]b'') \<and>
   current_lines (foldl (step False (ustr ''f'')) init_engine [ustr ''{D1}a'', ustr ''[1a]b'']) =
     [ustr ''a'', ustr ''Page: 1b''] \<and>
   pop_last_marker [ustr ''a'', ustr ''Page: 1b''] = None \<and>
   current_lines (open_section False (ustr ''f'') (ustr ''D2'')
     (foldl (step False (ustr ''f'')) init_engine [ustr ''{D1}a'', ustr ''[1a]b''])) =
     [ustr ''Page: 1b''] \<and>
   page_counter (open_section False (ustr ''f'') (ustr ''D2'')
     (foldl (step False (ustr ''f'')) init_engine [ustr ''{D1}a'', ustr ''[1a]b''])) = 2"
  by (simp add: evals)

section \<open>Failures in the batch\<close>

lemma files_loop_append:
  "files_loop thr writable (fs1 @ fs2) report d =
     (case files_loop thr writable fs1 report d of
        (d', Inl e) \<Rightarrow> (d', Inl e)
      | (d', Inr report') \<Rightarrow> files_loop thr writable fs2 report' d')"
  by (induction fs1 arbitrary: report d) (auto split: prod.splits sum.splits)

text \<open>
  C7, as the code has it. \<open>process_all_files\<close> has no handler around \<open>process_file\<close>: when
  reading or writing fails for a file, the failure is the outcome of the whole batch. The
  files before it have been processed (disk \<open>d1\<close>), the disk keeps what the failing file
  wrote before the failure (\<open>d2\<close>), and the files after it are neither read nor written.
\<close>

theorem failure_ends_the_batch:
  "files_loop content_threshold writable fs1 [] d = (d1, Inr report) \<Longrightarrow>
   process_file_io content_threshold writable f d1 = (d2, Inl e) \<Longrightarrow>
   process_all_files content_threshold writable (fs1 @ f # fs2) d = (d2, Inl e)"
  by (simp add: process_all_files_def files_loop_append)

theorem failure_ends_the_batch_witness:
  "files_loop 50 (\<lambda>name. True) [] [] [] = ([], Inr []) \<and>
   process_file_io 50 (\<lambda>name. True) (ustr ''a'', None) [] = ([], Inl (ReadFailed (ustr ''a''))) \<and>
   process_all_files 50 (\<lambda>name. True) ([] @ (ustr ''a'', None) # [(ustr ''b'', Some [ustr ''x''])]) [] =
     ([], Inl (ReadFailed (ustr ''a'')))"
proof -
  have a: "files_loop 50 (\<lambda>name. True) [] [] [] = ([], Inr [])"
    by simp
  have b: "process_file_io 50 (\<lambda>name. True) (ustr ''a'', None) [] =
      ([], Inl (ReadFailed (ustr ''a'')))"
    by (simp add: process_file_io_def)
  from failure_ends_the_batch[OF a b, of "[(ustr ''b'', Some [ustr ''x''])]"]
  show ?thesis using a b by simp
qed

theorem batch_aborted_counterexample:
  "process_all_files 50 (\<lambda>name. True) [(ustr ''a'', None), (ustr ''b'', Some [ustr ''x''])] [] =
     ([], Inl (ReadFailed (ustr ''a''))) \<and>
   process_all_files 50 (\<lambda>name. True) [(ustr ''b'', Some [ustr ''x''])] [] =
     ([(ustr ''b.txt'', ustr ''x'')], Inr [(ustr ''b'', 1)])"
  by (simp add: process_all_files_def process_file_io_def evals)

section \<open>Numbering the lines of a buffer\<close>

lemma number_pages_Cons:
  "number_pages n (p # ps) =
     (fst (replace_page_markers p n) # fst (number_pages (snd (replace_page_markers p n)) ps),
      snd (number_pages (snd (replace_page_markers p n)) ps))"
  by (simp split: prod.splits)

declare number_pages.simps(2) [simp del]

lemma number_pages_snoc:
  "number_pages n (ps @ [p]) =
     (fst (number_pages n ps) @ [fst (replace_page_markers p (snd (number_pages n ps)))],
      snd (replace_page_markers p (snd (number_pages n ps))))"
  by (induction ps arbitrary: n) (simp_all add: number_pages_Cons)

lemma number_pages_append:
  "number_pages n (ps @ qs) =
     (fst (number_pages n ps) @ fst (number_pages (snd (number_pages n ps)) qs),
      snd (number_pages (snd (number_pages n ps)) qs))"
  by (induction ps arbitrary: n) (simp_all add: number_pages_Cons)

lemma length_number_pages [simp]: "length (fst (number_pages n ps)) = length ps"
  by (induction ps arbitrary: n) (simp_all add: number_pages_Cons)

text \<open>The counter after a substitution: one more for each marker found.\<close>

lemma count_shift:
  "snd (sub_st (Lit a # es) (\<lambda>ps (k::nat). ([], k + 1)) s k0) =
   k0 + snd (sub_st (Lit a # es) (\<lambda>ps (k::nat). ([], k + 1)) s 0)"
proof (induction s arbitrary: k0 rule: length_induct)
  case (1 s)
  have IH: "\<And>ys k. length ys < length s \<Longrightarrow>
      snd (sub_st (Lit a # es) (\<lambda>ps (k::nat). ([], k + 1)) ys k) =
      k + snd (sub_st (Lit a # es) (\<lambda>ps (k::nat). ([], k + 1)) ys 0)"
    by (rule "1.IH"[rule_format])
  show ?case
  proof (cases s)
    case Nil
    then show ?thesis by simp
  next
    case (Cons c cs)
    show ?thesis
    proof (cases "mt (Lit a # es) (c # cs)")
      case None
      with IH[of cs k0] Cons show ?thesis by (simp add: sub_st_None)
    next
      case (Some m)
      obtain ps r where m: "m = (ps, r)" by (cases m)
      have len: "length r < length s" using Some m Cons mt_Lit_length by fastforce
      from IH[OF len, of "k0 + 1"] IH[OF len, of 1] Some m Cons show ?thesis
        by (simp add: sub_st_Some)
    qed
  qed
qed

lemma counter_after_sub:
  "snd (sub_st (Lit a # es) (\<lambda>ps (n::int). (g n, n + 1)) s n0) =
   n0 + int (snd (sub_st (Lit a # es) (\<lambda>ps (k::nat). ([], k + 1)) s 0))"
proof (induction s arbitrary: n0 rule: length_induct)
  case (1 s)
  have IH: "\<And>ys n. length ys < length s \<Longrightarrow>
      snd (sub_st (Lit a # es) (\<lambda>ps (n::int). (g n, n + 1)) ys n) =
      n + int (snd (sub_st (Lit a # es) (\<lambda>ps (k::nat). ([], k + 1)) ys 0))"
    by (rule "1.IH"[rule_format])
  show ?case
  proof (cases s)
    case Nil
    then show ?thesis by simp
  next
    case (Cons c cs)
    show ?thesis
    proof (cases "mt (Lit a # es) (c # cs)")
      case None
      with IH[of cs n0] Cons show ?thesis by (simp add: sub_st_None)
    next
      case (Some m)
      obtain ps r where m: "m = (ps, r)" by (cases m)
      have len: "length r < length s" using Some m Cons mt_Lit_length by fastforce
      from IH[OF len, of "n0 + 1"] count_shift[of a es r 1] Some m Cons show ?thesis
        by (simp add: sub_st_Some)
    qed
  qed
qed

lemma replace_page_markers_counter:
  "snd (replace_page_markers s n) = n + int (count_bare s)"
  by (simp add: replace_page_markers_def count_bare_def BP_eq counter_after_sub)

lemma number_pages_counter:
  "snd (number_pages n ps) = n + int (sum_list (map count_bare ps))"
  by (induction ps arbitrary: n) (simp_all add: number_pages_Cons replace_page_markers_counter)

lemma replace_page_markers_head:
  "mt BRACKET_PAGE_RE s = Some (ps, r) \<Longrightarrow>
   replace_page_markers s n =
     (page_label n @ fst (replace_page_markers r (n + 1)), snd (replace_page_markers r (n + 1)))"
  by (cases s) (simp_all add: replace_page_markers_def BP_eq sub_st_Some)

section \<open>Lines without section token\<close>

lemma no_token_run:
  "section_counter st = 0 \<Longrightarrow> \<forall>l\<in>set lines. section_of l = None \<Longrightarrow>
   foldl (step ss stem) st lines =
     st\<lparr>page_counter := snd (number_pages (page_counter st) (map processed lines)),
        current_lines := current_lines st @ fst (number_pages (page_counter st) (map processed lines))\<rparr>"
proof (induction lines arbitrary: st)
  case Nil
  then show ?case by simp
next
  case (Cons l lines)
  have s: "step ss stem st l =
      st\<lparr>page_counter := snd (replace_page_markers (processed l) (page_counter st)),
         current_lines := current_lines st @ [fst (replace_page_markers (processed l) (page_counter st))]\<rparr>"
    using Cons.prems by (simp add: step_eq)
  have "foldl (step ss stem) (step ss stem st l) lines =
      (step ss stem st l)\<lparr>page_counter :=
          snd (number_pages (page_counter (step ss stem st l)) (map processed lines)),
        current_lines := current_lines (step ss stem st l) @
          fst (number_pages (page_counter (step ss stem st l)) (map processed lines))\<rparr>"
    by (rule Cons.IH) (use Cons.prems s in simp_all)
  then show ?case by (simp add: s number_pages_Cons)
qed

section \<open>Documents without section token\<close>

lemma count_loop_no_token:
  "\<forall>l\<in>set lines. \<not> has_section_token l \<Longrightarrow> snd (count_loop lines i c) = - 1"
  by (induction lines arbitrary: i c) (simp_all add: has_section_token_def)

lemma should_split_no_token:
  "\<forall>l\<in>set lines. \<not> has_section_token l \<Longrightarrow> \<not> should_split thr lines"
  using count_loop_no_token[of lines 0 0]
  by (auto simp: should_split_def count_meaningful_lines_before_section_def split: prod.splits)

lemma scan_no_token:
  "\<forall>l\<in>set lines. section_of l = None \<Longrightarrow>
   scan thr stem lines =
     init_engine\<lparr>page_counter := snd (number_pages 1 (map processed lines)),
                 current_lines := fst (number_pages 1 (map processed lines))\<rparr>"
  unfolding scan_def
  by (subst no_token_run) (simp_all add: init_engine_def)

text \<open>
  C10, as the code has it. The scan looks for the section token in the processed line, the
  pre-scan of the heuristic in the raw line. If no line yields a section token when it is
  processed, \<open>process_file\<close> writes no file for the empty document and otherwise exactly one
  file, named after the stem, that holds all the processed lines with their page markers
  numbered from 1. If no raw line holds a section token, the heuristic does not fire.
\<close>

theorem no_section_single_file:
  "((\<forall>l\<in>set lines. section_of l = None) \<longrightarrow>
      process_file content_threshold stem lines =
        (if lines = [] then []
         else [(stem @ ustr ''.txt'', fst (number_pages 1 (map processed lines)))])) \<and>
   ((\<forall>l\<in>set lines. \<not> has_section_token l) \<longrightarrow> \<not> should_split content_threshold lines)"
proof (intro conjI impI)
  assume a: "\<forall>l\<in>set lines. section_of l = None"
  have "lines \<noteq> [] \<Longrightarrow> fst (number_pages 1 (map processed lines)) \<noteq> []"
    by (metis length_number_pages length_map length_0_conv)
  then show "process_file content_threshold stem lines =
     (if lines = [] then []
      else [(stem @ ustr ''.txt'', fst (number_pages 1 (map processed lines)))])"
    by (simp add: process_file_def scan_no_token[OF a] init_engine_def write_section_file_def)
next
  assume "\<forall>l\<in>set lines. \<not> has_section_token l"
  then show "\<not> should_split content_threshold lines"
    by (rule should_split_no_token)
qed

theorem no_section_single_file_witness:
  "section_of (ustr ''[1a]x'') = None \<and> section_of (ustr ''y[2b]'') = None \<and>
   \<not> has_section_token (ustr ''[1a]x'') \<and> \<not> has_section_token (ustr ''y[2b]'') \<and>
   process_file 50 (ustr ''f'') [ustr ''[1a]x'', ustr ''y[2b]''] =
     [(ustr ''f.txt'', [ustr ''Page: 1x'', ustr ''yPage: 2''])] \<and>
   \<not> should_split 50 [ustr ''[1a]x'', ustr ''y[2b]'']"
proof -
  have a: "\<forall>l\<in>set [ustr ''[1a]x'', ustr ''y[2b]'']. section_of l = None"
    by (simp add: evals)
  have b: "\<forall>l\<in>set [ustr ''[1a]x'', ustr ''y[2b]'']. \<not> has_section_token l"
    by (simp add: evals)
  have c: "fst (number_pages 1 (map processed [ustr ''[1a]x'', ustr ''y[2b]''])) =
      [ustr ''Page: 1x'', ustr ''yPage: 2'']"
    by (simp add: number_pages_Cons evals)
  from no_section_single_file[of "[ustr ''[1a]x'', ustr ''y[2b]'']" 50 "ustr ''f''"]
  show ?thesis using a b c by (simp add: ustr_def)
qed

theorem token_made_by_deletion_counterexample:
  "\<not> has_section_token (ustr ''{D{D1-1}1}'') \<and>
   process_file 50 (ustr ''f'') [ustr ''{D{D1-1}1}''] = [(ustr ''f_D1.txt'', [[]])] \<and>
   process_file 50 (ustr ''f'') [ustr ''{D{D1-1}1}''] \<noteq> [(ustr ''f.txt'', [[]])]"
  by (simp add: evals)

section \<open>What a buffer holds\<close>

text \<open>
  In every state of the scan the open buffer is, after the line injected when it was opened,
  a run of consecutive lines of the document, numbered by \<open>replace_page_markers\<close> from the
  counter the buffer was opened with; the page counter is where that numbering stands. Every
  buffer flushed before has the same form.
\<close>

lemma buffer_structure:
  fixes lines :: "pystr list" and ss :: bool and stem :: pystr
  defines "st \<equiv> foldl (step ss stem) init_engine lines"
  shows "(\<exists>a b inj k. lines = a @ b \<and>
            current_lines st = inj @ fst (number_pages k (map processed b)) \<and>
            page_counter st = snd (number_pages k (map processed b)) \<and>
            (inj = [] \<and> k = 1 \<or>
             (\<exists>l. inj = [sub BRACKET_PAGE_RE (\<lambda>ps. ustr ''Page: 1'') l]) \<and> k = 2)) \<and>
         (\<forall>w\<in>set (output_files st). \<exists>a b c inj k. lines = a @ b @ c \<and>
            snd w = inj @ fst (number_pages k (map processed b)) \<and>
            (inj = [] \<and> k = 1 \<or>
             (\<exists>l. inj = [sub BRACKET_PAGE_RE (\<lambda>ps. ustr ''Page: 1'') l]) \<and> k = 2))"
  unfolding st_def
proof (induction lines rule: rev_induct)
  case Nil
  have "([]::pystr list) = [] @ [] \<and>
        current_lines init_engine = [] @ fst (number_pages 1 (map processed [])) \<and>
        page_counter init_engine = snd (number_pages 1 (map processed [])) \<and>
        (([]::pystr list) = [] \<and> (1::int) = 1 \<or>
         (\<exists>l. [] = [sub BRACKET_PAGE_RE (\<lambda>ps. ustr ''Page: 1'') l]) \<and> (1::int) = 2)"
    by (simp add: init_engine_def)
  then show ?case
    by (simp add: init_engine_def)
next
  case (snoc x xs)
  define s0 where "s0 = foldl (step ss stem) init_engine xs"
  from snoc obtain a b inj k where cur: "xs = a @ b"
      "current_lines s0 = inj @ fst (number_pages k (map processed b))"
      "page_counter s0 = snd (number_pages k (map processed b))"
      "inj = [] \<and> k = 1 \<or> (\<exists>l. inj = [sub BRACKET_PAGE_RE (\<lambda>ps. ustr ''Page: 1'') l]) \<and> k = 2"
    unfolding s0_def by blast
  from snoc have old: "\<forall>w\<in>set (output_files s0). \<exists>a b c inj k. xs = a @ b @ c \<and>
      snd w = inj @ fst (number_pages k (map processed b)) \<and>
      (inj = [] \<and> k = 1 \<or> (\<exists>l. inj = [sub BRACKET_PAGE_RE (\<lambda>ps. ustr ''Page: 1'') l]) \<and> k = 2)"
    unfolding s0_def by blast
  have old': "\<exists>a b c inj k. xs @ [x] = a @ b @ c \<and>
      snd w = inj @ fst (number_pages k (map processed b)) \<and>
      (inj = [] \<and> k = 1 \<or> (\<exists>l. inj = [sub BRACKET_PAGE_RE (\<lambda>ps. ustr ''Page: 1'') l]) \<and> k = 2)"
    if "w \<in> set (output_files s0)" for w
  proof -
    from old that obtain a b c inj k where h: "xs = a @ b @ c"
      "snd w = inj @ fst (number_pages k (map processed b))"
      "inj = [] \<and> k = 1 \<or> (\<exists>l. inj = [sub BRACKET_PAGE_RE (\<lambda>ps. ustr ''Page: 1'') l]) \<and> k = 2"
      by blast
    have "xs @ [x] = a @ b @ (c @ [x])" using h(1) by simp
    with h(2,3) show ?thesis by blast
  qed
  have clean: "\<forall>l\<in>set (current_lines s0). \<not> has_bare l"
    unfolding s0_def using foldl_step_clean[of init_engine ss stem xs]
    by (simp add: init_engine_def)
  have fl: "foldl (step ss stem) init_engine (xs @ [x]) = step ss stem s0 x"
    by (simp add: s0_def)
  have keep: "(\<exists>a b inj k. xs @ [x] = a @ b \<and>
            current_lines (step ss stem s0 x) = inj @ fst (number_pages k (map processed b)) \<and>
            page_counter (step ss stem s0 x) = snd (number_pages k (map processed b)) \<and>
            (inj = [] \<and> k = 1 \<or>
             (\<exists>l. inj = [sub BRACKET_PAGE_RE (\<lambda>ps. ustr ''Page: 1'') l]) \<and> k = 2)) \<and>
         (\<forall>w\<in>set (output_files (step ss stem s0 x)). \<exists>a b c inj k. xs @ [x] = a @ b @ c \<and>
            snd w = inj @ fst (number_pages k (map processed b)) \<and>
            (inj = [] \<and> k = 1 \<or>
             (\<exists>l. inj = [sub BRACKET_PAGE_RE (\<lambda>ps. ustr ''Page: 1'') l]) \<and> k = 2))"
    if s1: "current_lines s1 = current_lines s0" "page_counter s1 = page_counter s0"
       "output_files s1 = output_files s0"
       and stp: "current_lines (step ss stem s0 x) =
            current_lines s1 @ [fst (replace_page_markers (processed x) (page_counter s1))]"
          "page_counter (step ss stem s0 x) = snd (replace_page_markers (processed x) (page_counter s1))"
          "output_files (step ss stem s0 x) = output_files s1"
    for s1
  proof -
    have "xs @ [x] = a @ (b @ [x]) \<and>
        current_lines (step ss stem s0 x) = inj @ fst (number_pages k (map processed (b @ [x]))) \<and>
        page_counter (step ss stem s0 x) = snd (number_pages k (map processed (b @ [x]))) \<and>
        (inj = [] \<and> k = 1 \<or> (\<exists>l. inj = [sub BRACKET_PAGE_RE (\<lambda>ps. ustr ''Page: 1'') l]) \<and> k = 2)"
      using cur s1 stp by (simp add: number_pages_snoc)
    then have "\<exists>a b inj k. xs @ [x] = a @ b \<and>
            current_lines (step ss stem s0 x) = inj @ fst (number_pages k (map processed b)) \<and>
            page_counter (step ss stem s0 x) = snd (number_pages k (map processed b)) \<and>
            (inj = [] \<and> k = 1 \<or>
             (\<exists>l. inj = [sub BRACKET_PAGE_RE (\<lambda>ps. ustr ''Page: 1'') l]) \<and> k = 2)"
      by blast
    moreover have "\<forall>w\<in>set (output_files (step ss stem s0 x)). \<exists>a b c inj k. xs @ [x] = a @ b @ c \<and>
            snd w = inj @ fst (number_pages k (map processed b)) \<and>
            (inj = [] \<and> k = 1 \<or>
             (\<exists>l. inj = [sub BRACKET_PAGE_RE (\<lambda>ps. ustr ''Page: 1'') l]) \<and> k = 2)"
      using old' stp(3) s1(3) by simp
    ultimately show ?thesis by blast
  qed
  let ?P = "\<lambda>st' ls. (\<exists>a b inj k. ls = a @ b \<and>
            current_lines st' = inj @ fst (number_pages k (map processed b)) \<and>
            page_counter st' = snd (number_pages k (map processed b)) \<and>
            (inj = [] \<and> k = 1 \<or>
             (\<exists>l. inj = [sub BRACKET_PAGE_RE (\<lambda>ps. ustr ''Page: 1'') l]) \<and> k = 2)) \<and>
         (\<forall>w\<in>set (output_files st'). \<exists>a b c inj k. ls = a @ b @ c \<and>
            snd w = inj @ fst (number_pages k (map processed b)) \<and>
            (inj = [] \<and> k = 1 \<or>
             (\<exists>l. inj = [sub BRACKET_PAGE_RE (\<lambda>ps. ustr ''Page: 1'') l]) \<and> k = 2))"
  have "?P (step ss stem s0 x) (xs @ [x])"
  proof (cases "section_of x")
    case None
    show ?thesis
      by (rule keep[of s0]) (simp_all add: step_eq None)
  next
    case (Some tok)
    show ?thesis
    proof (cases "section_counter s0 = 0 \<and> \<not> ss")
      case True
      show ?thesis
        by (rule keep[of "open_section ss stem tok s0"])
           (simp_all add: step_eq Some Let_def open_section_eq[OF clean] True)
    next
      case False
      define inj' where "inj' = (case last_page_marker_line s0 of None \<Rightarrow> []
          | Some l \<Rightarrow> [sub BRACKET_PAGE_RE (\<lambda>ps. ustr ''Page: 1'') l])"
      define k' :: int where "k' = (case last_page_marker_line s0 of None \<Rightarrow> 1 | Some l \<Rightarrow> 2)"
      have op: "inj' = [] \<and> k' = 1 \<or>
          (\<exists>l. inj' = [sub BRACKET_PAGE_RE (\<lambda>ps. ustr ''Page: 1'') l]) \<and> k' = 2"
        unfolding inj'_def k'_def by (cases "last_page_marker_line s0") auto
      have c1: "current_lines (step ss stem s0 x) =
          inj' @ fst (number_pages k' (map processed [x]))"
        using False by (auto simp: step_eq Some Let_def open_section_eq[OF clean]
            inj'_def k'_def number_pages_Cons split: option.splits)
      have c2: "page_counter (step ss stem s0 x) = snd (number_pages k' (map processed [x]))"
        using False by (auto simp: step_eq Some Let_def open_section_eq[OF clean]
            inj'_def k'_def number_pages_Cons split: option.splits)
      have c3: "output_files (step ss stem s0 x) =
          output_files s0 @ [write_section_file stem
            (if section_counter s0 = 0 then ustr ''BASE'' else current_section s0) (current_lines s0)]"
        using False by (auto simp: step_eq Some Let_def open_section_eq[OF clean])
      have n1: "\<exists>a b inj k. xs @ [x] = a @ b \<and>
            current_lines (step ss stem s0 x) = inj @ fst (number_pages k (map processed b)) \<and>
            page_counter (step ss stem s0 x) = snd (number_pages k (map processed b)) \<and>
            (inj = [] \<and> k = 1 \<or>
             (\<exists>l. inj = [sub BRACKET_PAGE_RE (\<lambda>ps. ustr ''Page: 1'') l]) \<and> k = 2)"
        using c1 c2 op by blast
      have n2: "\<exists>a b c inj k. xs @ [x] = a @ b @ c \<and>
            snd w = inj @ fst (number_pages k (map processed b)) \<and>
            (inj = [] \<and> k = 1 \<or>
             (\<exists>l. inj = [sub BRACKET_PAGE_RE (\<lambda>ps. ustr ''Page: 1'') l]) \<and> k = 2)"
        if "w \<in> set (output_files (step ss stem s0 x))" for w
      proof (cases "w \<in> set (output_files s0)")
        case True
        then show ?thesis by (rule old')
      next
        case False
        with that c3 have "snd w = current_lines s0" by auto
        then have "xs @ [x] = a @ b @ [x] \<and>
            snd w = inj @ fst (number_pages k (map processed b)) \<and>
            (inj = [] \<and> k = 1 \<or>
             (\<exists>l. inj = [sub BRACKET_PAGE_RE (\<lambda>ps. ustr ''Page: 1'') l]) \<and> k = 2)"
          using cur by simp
        then show ?thesis by blast
      qed
      from n1 n2 show ?thesis by blast
    qed
  qed
  then show ?case unfolding fl .
qed

section \<open>The page counter of a buffer\<close>

text \<open>
  C4, as the code has it. \<open>replace_page_markers\<close> gives the marker it meets the label of the
  counter and goes on with the counter plus one, so the counter it returns is the one it
  was given plus the number of markers of the line. In every state of the scan the open
  buffer is a run of consecutive lines of the document numbered in this way from the counter
  the buffer was opened with, which is 1, or 2 behind one injected line; the page counter is
  that opening counter plus the number of markers replaced in the buffer since. Every file
  written has this form too. The labels of the injected line are not covered: it is rendered
  by \<open>BRACKET_PAGE_RE.sub("Page: 1", ...)\<close>, not by \<open>replace_page_markers\<close>.
\<close>

theorem page_counter_per_buffer:
  "snd (replace_page_markers s n) = n + int (count_bare s) \<and>
   (\<forall>ps r. mt BRACKET_PAGE_RE s = Some (ps, r) \<longrightarrow>
      fst (replace_page_markers s n) = page_label n @ fst (replace_page_markers r (n + 1))) \<and>
   (\<exists>a b inj k. lines = a @ b \<and>
      current_lines (foldl (step ss stem) init_engine lines) =
        inj @ fst (number_pages k (map processed b)) \<and>
      page_counter (foldl (step ss stem) init_engine lines) =
        k + int (sum_list (map count_bare (map processed b))) \<and>
      (inj = [] \<and> k = 1 \<or>
       (\<exists>l. inj = [sub BRACKET_PAGE_RE (\<lambda>ps. ustr ''Page: 1'') l]) \<and> k = 2)) \<and>
   (\<forall>w\<in>set (process_file content_threshold stem lines). \<exists>a b c inj k. lines = a @ b @ c \<and>
      snd w = inj @ fst (number_pages k (map processed b)) \<and>
      (inj = [] \<and> k = 1 \<or>
       (\<exists>l. inj = [sub BRACKET_PAGE_RE (\<lambda>ps. ustr ''Page: 1'') l]) \<and> k = 2))"
proof (intro conjI)
  show "snd (replace_page_markers s n) = n + int (count_bare s)"
    by (rule replace_page_markers_counter)
  show "\<forall>ps r. mt BRACKET_PAGE_RE s = Some (ps, r) \<longrightarrow>
      fst (replace_page_markers s n) = page_label n @ fst (replace_page_markers r (n + 1))"
    by (simp add: replace_page_markers_head)
  show "\<exists>a b inj k. lines = a @ b \<and>
      current_lines (foldl (step ss stem) init_engine lines) =
        inj @ fst (number_pages k (map processed b)) \<and>
      page_counter (foldl (step ss stem) init_engine lines) =
        k + int (sum_list (map count_bare (map processed b))) \<and>
      (inj = [] \<and> k = 1 \<or>
       (\<exists>l. inj = [sub BRACKET_PAGE_RE (\<lambda>ps. ustr ''Page: 1'') l]) \<and> k = 2)"
    using buffer_structure[of lines ss stem] by (simp only: number_pages_counter)
  show "\<forall>w\<in>set (process_file content_threshold stem lines). \<exists>a b c inj k. lines = a @ b @ c \<and>
      snd w = inj @ fst (number_pages k (map processed b)) \<and>
      (inj = [] \<and> k = 1 \<or>
       (\<exists>l. inj = [sub BRACKET_PAGE_RE (\<lambda>ps. ustr ''Page: 1'') l]) \<and> k = 2)"
  proof
    fix w
    assume w: "w \<in> set (process_file content_threshold stem lines)"
    define st where "st = scan content_threshold stem lines"
    note bs = buffer_structure[of lines "should_split content_threshold lines" stem,
        folded scan_def, folded st_def]
    show "\<exists>a b c inj k. lines = a @ b @ c \<and>
      snd w = inj @ fst (number_pages k (map processed b)) \<and>
      (inj = [] \<and> k = 1 \<or>
       (\<exists>l. inj = [sub BRACKET_PAGE_RE (\<lambda>ps. ustr ''Page: 1'') l]) \<and> k = 2)"
    proof (cases "w \<in> set (output_files st)")
      case True
      with bs show ?thesis by blast
    next
      case False
      with w have "snd w = current_lines st"
        by (auto simp: process_file_def Let_def st_def split: if_splits)
      moreover from bs obtain a b inj k where "lines = a @ b"
        "current_lines st = inj @ fst (number_pages k (map processed b))"
        "inj = [] \<and> k = 1 \<or> (\<exists>l. inj = [sub BRACKET_PAGE_RE (\<lambda>ps. ustr ''Page: 1'') l]) \<and> k = 2"
        by blast
      ultimately have "lines = a @ b @ [] \<and>
        snd w = inj @ fst (number_pages k (map processed b)) \<and>
        (inj = [] \<and> k = 1 \<or> (\<exists>l. inj = [sub BRACKET_PAGE_RE (\<lambda>ps. ustr ''Page: 1'') l]) \<and> k = 2)"
        by simp
      then show ?thesis by blast
    qed
  qed
qed

theorem page_counter_per_buffer_witness:
  "mt BRACKET_PAGE_RE (ustr ''[2a]d[2b]e'') =
     Some ([ustr ''['', ustr ''2'', ustr ''a'', ustr '']''], ustr ''d[2b]e'') \<and>
   fst (replace_page_markers (ustr ''[2a]d[2b]e'') 2) =
     page_label 2 @ fst (replace_page_markers (ustr ''d[2b]e'') 3) \<and>
   snd (replace_page_markers (ustr ''[2a]d[2b]e'') 2) = 2 + int (count_bare (ustr ''[2a]d[2b]e'')) \<and>
   (ustr ''f_D2.txt'', [ustr ''Page: 1b'', ustr ''c'', ustr ''Page: 2dPage: 3e'']) \<in>
     set (process_file 50 (ustr ''f'')
            [ustr ''{D1}a'', ustr ''[1a]b'', ustr ''{D2}c'', ustr ''[2a]d[2b]e'']) \<and>
   (\<exists>a b c inj k.
      [ustr ''{D1}a'', ustr ''[1a]b'', ustr ''{D2}c'', ustr ''[2a]d[2b]e''] = a @ b @ c \<and>
      [ustr ''Page: 1b'', ustr ''c'', ustr ''Page: 2dPage: 3e''] =
        inj @ fst (number_pages k (map processed b)) \<and>
      (inj = [] \<and> k = 1 \<or>
       (\<exists>l. inj = [sub BRACKET_PAGE_RE (\<lambda>ps. ustr ''Page: 1'') l]) \<and> k = 2))"
proof -
  have m: "mt BRACKET_PAGE_RE (ustr ''[2a]d[2b]e'') =
     Some ([ustr ''['', ustr ''2'', ustr ''a'', ustr '']''], ustr ''d[2b]e'')"
    by (simp add: evals)
  have p: "process_file 50 (ustr ''f'')
            [ustr ''{D1}a'', ustr ''[1a]b'', ustr ''{D2}c'', ustr ''[2a]d[2b]e''] =
      [(ustr ''f_D1.txt'', [ustr ''a'', ustr ''Page: 1b'']),
       (ustr ''f_D2.txt'', [ustr ''Page: 1b'', ustr ''c'', ustr ''Page: 2dPage: 3e''])]"
    by (simp add: evals)
  note t = page_counter_per_buffer[of "ustr ''[2a]d[2b]e''" 2
      "[ustr ''{D1}a'', ustr ''[1a]b'', ustr ''{D2}c'', ustr ''[2a]d[2b]e'']" False "ustr ''f''" 50]
  from t[THEN conjunct2, THEN conjunct1, rule_format, OF m]
  have h: "fst (replace_page_markers (ustr ''[2a]d[2b]e'') 2) =
     page_label 2 @ fst (replace_page_markers (ustr ''d[2b]e'') 3)"
    by simp
  from t have c: "snd (replace_page_markers (ustr ''[2a]d[2b]e'') 2) =
      2 + int (count_bare (ustr ''[2a]d[2b]e''))"
    by blast
  have i: "(ustr ''f_D2.txt'', [ustr ''Page: 1b'', ustr ''c'', ustr ''Page: 2dPage: 3e'']) \<in>
     set (process_file 50 (ustr ''f'')
            [ustr ''{D1}a'', ustr ''[1a]b'', ustr ''{D2}c'', ustr ''[2a]d[2b]e''])"
    by (simp only: p) simp
  from t i have e: "\<exists>a b c inj k.
      [ustr ''{D1}a'', ustr ''[1a]b'', ustr ''{D2}c'', ustr ''[2a]d[2b]e''] = a @ b @ c \<and>
      snd (ustr ''f_D2.txt'', [ustr ''Page: 1b'', ustr ''c'', ustr ''Page: 2dPage: 3e'']) =
        inj @ fst (number_pages k (map processed b)) \<and>
      (inj = [] \<and> k = 1 \<or>
       (\<exists>l. inj = [sub BRACKET_PAGE_RE (\<lambda>ps. ustr ''Page: 1'') l]) \<and> k = 2)"
    by blast
  from m h c i e show ?thesis by (simp only: snd_conv)
qed

theorem injected_labels_counterexample:
  "process_file 50 (ustr ''f'') [ustr ''{D1}a'', ustr ''[1a]b[1b]c'', ustr ''{D2}d'', ustr ''[2a]e''] =
     [(ustr ''f_D1.txt'', [ustr ''a'', ustr ''Page: 1bPage: 2c'']),
      (ustr ''f_D2.txt'', [ustr ''Page: 1bPage: 1c'', ustr ''d'', ustr ''Page: 2e''])]"
  by (simp add: evals)

section \<open>The lead-in file\<close>

lemma section_of_D: "section_of l = Some tok \<Longrightarrow> \<exists>t. tok = 68 # t"
  by (auto simp: section_of_def process_line_def Let_def split: option.splits)

lemma section_name: "fst (write_section_file stem (68 # t) ls) \<noteq> stem @ ustr ''.txt''"
  by (simp add: write_section_file_def ustr_def)

lemma base_name: "write_section_file stem (ustr ''BASE'') ls = (stem @ ustr ''.txt'', ls)"
  by (simp add: write_section_file_def ustr_def)

text \<open>Once a section is open, no file is written under the name of the stem alone.\<close>

lemma step_section_names:
  assumes "\<forall>l\<in>set (current_lines st). \<not> has_bare l"
    and "section_counter st \<noteq> 0" and "\<exists>t. current_section st = 68 # t"
    and "\<forall>w\<in>set (output_files st). fst w \<noteq> stem @ ustr ''.txt''"
  shows "section_counter (step ss stem st line) \<noteq> 0 \<and>
         (\<exists>t. current_section (step ss stem st line) = 68 # t) \<and>
         (\<forall>w\<in>set (output_files (step ss stem st line)). fst w \<noteq> stem @ ustr ''.txt'')"
proof (cases "section_of line")
  case None
  with assms show ?thesis by (simp add: step_eq)
next
  case (Some tok)
  from section_of_D[OF Some] obtain t where t: "tok = 68 # t" by blast
  from assms(3) obtain u where u: "current_section st = 68 # u" by blast
  show ?thesis
    using assms(2,4) section_name[of stem u "current_lines st"]
    by (auto simp: step_eq Some Let_def open_section_eq[OF assms(1)] t u)
qed

lemma foldl_section_names:
  assumes "\<forall>l\<in>set (current_lines st). \<not> has_bare l"
    and "\<forall>w\<in>set (output_files st). \<forall>l\<in>set (snd w). \<not> has_bare l"
    and "section_counter st \<noteq> 0" and "\<exists>t. current_section st = 68 # t"
    and "\<forall>w\<in>set (output_files st). fst w \<noteq> stem @ ustr ''.txt''"
  shows "(\<exists>t. current_section (foldl (step ss stem) st lines) = 68 # t) \<and>
         (\<forall>w\<in>set (output_files (foldl (step ss stem) st lines)). fst w \<noteq> stem @ ustr ''.txt'')"
  using assms
proof (induction lines arbitrary: st)
  case Nil
  then show ?case by simp
next
  case (Cons l lines)
  have c: "(\<forall>l\<in>set (current_lines (step ss stem st l)). \<not> has_bare l) \<and>
         (\<forall>w\<in>set (output_files (step ss stem st l)). \<forall>l\<in>set (snd w). \<not> has_bare l)"
    by (rule step_clean) (use Cons.prems in simp_all)
  have n: "section_counter (step ss stem st l) \<noteq> 0 \<and>
         (\<exists>t. current_section (step ss stem st l) = 68 # t) \<and>
         (\<forall>w\<in>set (output_files (step ss stem st l)). fst w \<noteq> stem @ ustr ''.txt'')"
    by (rule step_section_names) (use Cons.prems in simp_all)
  show ?case
    by (simp only: foldl_Cons) (rule Cons.IH, use c n in simp_all)
qed

text \<open>The files written so far stay at the front of the list.\<close>

lemma remove_last_marker_files [simp]:
  "output_files (remove_last_marker st) = output_files st"
  by (simp add: remove_last_marker_def split: option.splits)

lemma inject_marker_files [simp]: "output_files (inject_marker st) = output_files st"
  by (simp add: inject_marker_def split: option.splits)

lemma step_files: "\<exists>ws. output_files (step ss stem st line) = output_files st @ ws"
  by (cases "section_of line") (simp_all add: step_eq open_section_def Let_def)

lemma foldl_files: "\<exists>ws. output_files (foldl (step ss stem) st lines) = output_files st @ ws"
proof (induction lines arbitrary: st)
  case Nil
  then show ?case by simp
next
  case (Cons l lines)
  from step_files[of ss stem st l] obtain ws where
    a: "output_files (step ss stem st l) = output_files st @ ws" by blast
  from Cons[of "step ss stem st l"] obtain ws' where
    b: "output_files (foldl (step ss stem) (step ss stem st l) lines) =
        output_files (step ss stem st l) @ ws'" by blast
  from a b have "output_files (foldl (step ss stem) st (l # lines)) = output_files st @ (ws @ ws')"
    by simp
  then show ?case by blast
qed

text \<open>The document up to its first line with a section token, and the state there.\<close>

lemma split_at_first_token:
  assumes "\<exists>l\<in>set lines. section_of l \<noteq> None"
  shows "\<exists>pre l post tok. lines = pre @ l # post \<and> (\<forall>x\<in>set pre. section_of x = None) \<and>
           section_of l = Some tok \<and> pre = takeWhile (\<lambda>x. section_of x = None) lines"
proof -
  define pre where "pre = takeWhile (\<lambda>x. section_of x = None) lines"
  define rest where "rest = dropWhile (\<lambda>x. section_of x = None) lines"
  have l: "lines = pre @ rest" by (simp add: pre_def rest_def)
  have p: "\<forall>x\<in>set pre. section_of x = None" unfolding pre_def by (auto dest: set_takeWhileD)
  have "rest \<noteq> []" using assms unfolding rest_def by (auto simp: dropWhile_eq_Nil_conv)
  then obtain x post where r: "rest = x # post" by (cases rest) auto
  have "\<not> section_of x = None"
    using hd_dropWhile[of "\<lambda>x. section_of x = None" lines] r unfolding rest_def by auto
  then obtain tok where "section_of x = Some tok" by auto
  with l p r pre_def show ?thesis by blast
qed

lemma state_at_first_token:
  assumes "\<forall>x\<in>set pre. section_of x = None" and "section_of l = Some tok"
  shows "output_files (foldl (step ss stem) init_engine (pre @ [l])) =
           (if ss then [(stem @ ustr ''.txt'', fst (number_pages 1 (map processed pre)))] else []) \<and>
         section_counter (foldl (step ss stem) init_engine (pre @ [l])) \<noteq> 0 \<and>
         current_section (foldl (step ss stem) init_engine (pre @ [l])) = tok"
proof -
  define s1 where "s1 = foldl (step ss stem) init_engine pre"
  have s1: "s1 = init_engine\<lparr>page_counter := snd (number_pages 1 (map processed pre)),
                 current_lines := fst (number_pages 1 (map processed pre))\<rparr>"
    unfolding s1_def by (subst no_token_run) (use assms in \<open>simp_all add: init_engine_def\<close>)
  have clean: "\<forall>l\<in>set (current_lines s1). \<not> has_bare l"
    unfolding s1_def using foldl_step_clean[of init_engine ss stem pre]
    by (simp add: init_engine_def)
  have f: "foldl (step ss stem) init_engine (pre @ [l]) = step ss stem s1 l"
    by (simp add: s1_def)
  have s1f: "section_counter s1 = 0" "output_files s1 = []" "last_page_marker_line s1 = None"
    "current_lines s1 = fst (number_pages 1 (map processed pre))"
    by (simp_all add: s1 init_engine_def)
  show ?thesis
    unfolding f
    by (simp add: step_eq assms(2) Let_def open_section_eq[OF clean] s1f base_name)
qed

text \<open>
  C6, as the code has it. The pre-scan looks for the first section token in the raw lines,
  the scan in the processed lines. A lead-in file, named after the stem alone and followed
  by the files of the sections, is written if and only if the count of meaningful lines
  before the first raw line with a section token reaches the threshold, that line is not the
  first of the document, and some line yields a section token when it is processed. The
  lead-in file holds the lines before the first such line.
\<close>

theorem lead_in_file_iff:
  "((\<exists>buf ws. process_file content_threshold stem lines = (stem @ ustr ''.txt'', buf) # ws \<and> ws \<noteq> []) \<longleftrightarrow>
      should_split content_threshold lines \<and> (\<exists>l\<in>set lines. section_of l \<noteq> None)) \<and>
   (should_split content_threshold lines \<and> (\<exists>l\<in>set lines. section_of l \<noteq> None) \<longrightarrow>
      (\<exists>ws. ws \<noteq> [] \<and>
         process_file content_threshold stem lines =
           (stem @ ustr ''.txt'',
            fst (number_pages 1 (map processed (takeWhile (\<lambda>l. section_of l = None) lines)))) # ws)) \<and>
   should_split content_threshold lines =
     (fst (count_meaningful_lines_before_section lines) \<ge> content_threshold \<and>
      snd (count_meaningful_lines_before_section lines) > 0)"
proof -
  define ss where "ss = should_split content_threshold lines"
  define st where "st = scan content_threshold stem lines"
  have stf: "st = foldl (step ss stem) init_engine lines"
    by (simp add: st_def scan_def ss_def)
  have pf: "lines \<noteq> [] \<Longrightarrow> process_file content_threshold stem lines =
      output_files st @ [write_section_file stem (current_section st) (current_lines st)]"
    using foldl_step_current_lines[of lines "should_split content_threshold lines" stem init_engine]
    by (simp add: process_file_def Let_def st_def scan_def)
  have fwd: "\<exists>ws. ws \<noteq> [] \<and>
         process_file content_threshold stem lines =
           (stem @ ustr ''.txt'',
            fst (number_pages 1 (map processed (takeWhile (\<lambda>l. section_of l = None) lines)))) # ws"
    if a: "ss" and b: "\<exists>l\<in>set lines. section_of l \<noteq> None"
  proof -
    from split_at_first_token[OF b] obtain pre l post tok where
      h: "lines = pre @ l # post" "\<forall>x\<in>set pre. section_of x = None" "section_of l = Some tok"
         "pre = takeWhile (\<lambda>x. section_of x = None) lines" by blast
    have o: "output_files (foldl (step ss stem) init_engine (pre @ [l])) =
        [(stem @ ustr ''.txt'', fst (number_pages 1 (map processed pre)))]"
      using state_at_first_token[OF h(2,3), of ss stem] a by simp
    have "st = foldl (step ss stem) (foldl (step ss stem) init_engine (pre @ [l])) post"
      unfolding stf by (subst h(1)) simp
    with foldl_files[of ss stem "foldl (step ss stem) init_engine (pre @ [l])" post] o
    obtain ws where "output_files st = (stem @ ustr ''.txt'', fst (number_pages 1 (map processed pre))) # ws"
      by auto
    with pf h(1) have "process_file content_threshold stem lines =
        (stem @ ustr ''.txt'', fst (number_pages 1 (map processed pre))) #
          (ws @ [write_section_file stem (current_section st) (current_lines st)])"
      by simp
    then show ?thesis unfolding h(4)[symmetric] by blast
  qed
  have bwd: "ss \<and> (\<exists>l\<in>set lines. section_of l \<noteq> None)"
    if c: "process_file content_threshold stem lines = (stem @ ustr ''.txt'', buf) # ws" "ws \<noteq> []"
    for buf ws
  proof (rule ccontr)
    assume n: "\<not> (ss \<and> (\<exists>l\<in>set lines. section_of l \<noteq> None))"
    show False
    proof (cases "\<exists>l\<in>set lines. section_of l \<noteq> None")
      case False
      then have "\<forall>l\<in>set lines. section_of l = None" by blast
      then have "output_files (scan content_threshold stem lines) = []"
        by (simp add: scan_no_token init_engine_def)
      then have "length (process_file content_threshold stem lines) \<le> 1"
        by (simp add: process_file_def Let_def)
      with c show False by (cases ws) simp_all
    next
      case True
      with n have nss: "\<not> ss" by blast
      from split_at_first_token[OF True] obtain pre l post tok where
        h: "lines = pre @ l # post" "\<forall>x\<in>set pre. section_of x = None" "section_of l = Some tok"
        by blast
      define s2 where "s2 = foldl (step ss stem) init_engine (pre @ [l])"
      have s2: "output_files s2 = []" "section_counter s2 \<noteq> 0" "current_section s2 = tok"
        using state_at_first_token[OF h(2,3), of ss stem] nss by (simp_all add: s2_def)
      have cl: "(\<forall>l\<in>set (current_lines s2). \<not> has_bare l) \<and>
          (\<forall>w\<in>set (output_files s2). \<forall>l\<in>set (snd w). \<not> has_bare l)"
        unfolding s2_def by (rule foldl_step_clean) (simp_all add: init_engine_def)
      have st: "st = foldl (step ss stem) s2 post"
        unfolding stf s2_def by (subst h(1)) simp
      from section_of_D[OF h(3)] s2(3) have d: "\<exists>t. current_section s2 = 68 # t" by simp
      have "(\<exists>t. current_section st = 68 # t) \<and>
          (\<forall>w\<in>set (output_files st). fst w \<noteq> stem @ ustr ''.txt'')"
        unfolding st by (rule foldl_section_names) (use cl s2 d in simp_all)
      then have "\<forall>w\<in>set (process_file content_threshold stem lines). fst w \<noteq> stem @ ustr ''.txt''"
        using pf h(1) section_name by auto
      with c(1) show False by simp
    qed
  qed
  have third: "should_split content_threshold lines =
     (fst (count_meaningful_lines_before_section lines) \<ge> content_threshold \<and>
      snd (count_meaningful_lines_before_section lines) > 0)"
    by (simp add: should_split_def split: prod.splits)
  from fwd bwd third show ?thesis unfolding ss_def by blast
qed

text \<open>A document with a single section token, on its last line.\<close>

lemma number_pages_plain: "\<forall>p\<in>set ps. \<not> has_bare p \<Longrightarrow> number_pages n ps = (ps, n)"
  by (induction ps) (simp_all add: number_pages_Cons replace_page_markers_id)

lemma count_loop_replicate:
  "\<not> has_section_token x \<Longrightarrow> is_meaningful_line x \<Longrightarrow>
   count_loop (replicate n x @ rest) i c = count_loop rest (i + int n) (c + int n)"
  by (induction n arbitrary: i c) (simp_all add: has_section_token_def add.assoc)

lemma section_file_name:
  "write_section_file stem (68 # t) ls = (stem @ ustr ''_'' @ 68 # t @ ustr ''.txt'', ls)"
  by (simp add: write_section_file_def ustr_def)

lemma single_section_document:
  assumes "\<forall>x\<in>set pre. section_of x = None" and "section_of l = Some (68 # t)"
  shows "process_file thr stem (pre @ [l]) =
     (if should_split thr (pre @ [l])
      then [(stem @ ustr ''.txt'', fst (number_pages 1 (map processed pre))),
            (stem @ ustr ''_'' @ 68 # t @ ustr ''.txt'', [fst (replace_page_markers (processed l) 1)])]
      else [(stem @ ustr ''_'' @ 68 # t @ ustr ''.txt'',
             fst (number_pages 1 (map processed (pre @ [l]))))])"
proof -
  define ss where "ss = should_split thr (pre @ [l])"
  define s1 where "s1 = foldl (step ss stem) init_engine pre"
  have s1: "s1 = init_engine\<lparr>page_counter := snd (number_pages 1 (map processed pre)),
                 current_lines := fst (number_pages 1 (map processed pre))\<rparr>"
    unfolding s1_def by (subst no_token_run) (use assms in \<open>simp_all add: init_engine_def\<close>)
  have clean: "\<forall>l\<in>set (current_lines s1). \<not> has_bare l"
    unfolding s1_def using foldl_step_clean[of init_engine ss stem pre]
    by (simp add: init_engine_def)
  have sc: "scan thr stem (pre @ [l]) = step ss stem s1 l"
    by (simp add: scan_def ss_def s1_def)
  have s1f: "section_counter s1 = 0" "output_files s1 = []" "last_page_marker_line s1 = None"
    "current_lines s1 = fst (number_pages 1 (map processed pre))"
    "page_counter s1 = snd (number_pages 1 (map processed pre))"
    by (simp_all add: s1 init_engine_def)
  show ?thesis
    unfolding process_file_def sc ss_def[symmetric]
    by (simp add: step_eq assms(2) Let_def open_section_eq[OF clean] s1f base_name
        section_file_name number_pages_snoc)
qed

theorem lead_in_file_iff_witness:
  "should_split 50 (replicate 60 (ustr ''x'') @ [ustr ''{D1}y'']) \<and>
   (\<exists>l\<in>set (replicate 60 (ustr ''x'') @ [ustr ''{D1}y'']). section_of l \<noteq> None) \<and>
   count_meaningful_lines_before_section (replicate 60 (ustr ''x'') @ [ustr ''{D1}y'']) = (60, 60) \<and>
   process_file 50 (ustr ''f'') (replicate 60 (ustr ''x'') @ [ustr ''{D1}y'']) =
     [(ustr ''f.txt'', replicate 60 (ustr ''x'')), (ustr ''f_D1.txt'', [ustr ''y''])] \<and>
   \<not> should_split 50 (replicate 10 (ustr ''x'') @ [ustr ''{D1}y'']) \<and>
   process_file 50 (ustr ''f'') (replicate 10 (ustr ''x'') @ [ustr ''{D1}y'']) =
     [(ustr ''f_D1.txt'', replicate 10 (ustr ''x'') @ [ustr ''y''])]"
proof -
  have x: "\<not> has_section_token (ustr ''x'')" "is_meaningful_line (ustr ''x'')"
    "section_of (ustr ''x'') = None" "processed (ustr ''x'') = ustr ''x''" "\<not> has_bare (ustr ''x'')"
    by (simp_all add: evals)
  have y: "section_of (ustr ''{D1}y'') = Some (68 # ustr ''1'')" "processed (ustr ''{D1}y'') = ustr ''y''"
    "\<not> has_bare (ustr ''y'')" "has_section_token (ustr ''{D1}y'')"
    by (simp_all add: evals)
  have c: "count_meaningful_lines_before_section (replicate n (ustr ''x'') @ [ustr ''{D1}y'']) =
      (int n, int n)" for n
  proof -
    have "count_loop [ustr ''{D1}y''] i k = (k, i)" for i k
      using y(4) by (simp add: has_section_token_def)
    then show ?thesis
      by (simp add: count_meaningful_lines_before_section_def count_loop_replicate x)
  qed
  have s: "should_split 50 (replicate 60 (ustr ''x'') @ [ustr ''{D1}y''])"
    by (simp add: should_split_def c)
  have n: "\<not> should_split 50 (replicate 10 (ustr ''x'') @ [ustr ''{D1}y''])"
    by (simp add: should_split_def c)
  have t: "\<exists>l\<in>set (replicate 60 (ustr ''x'') @ [ustr ''{D1}y'']). section_of l \<noteq> None"
    by (simp add: y)
  have np: "fst (number_pages 1 (map processed (replicate k (ustr ''x'')))) = replicate k (ustr ''x'')"
    for k by (simp add: x number_pages_plain)
  have np': "fst (number_pages 1 (map processed (replicate k (ustr ''x'') @ [ustr ''{D1}y'']))) =
      replicate k (ustr ''x'') @ [ustr ''y'']"
    for k by (subst number_pages_plain) (auto simp: x y)
  have p: "process_file 50 (ustr ''f'') (replicate k (ustr ''x'') @ [ustr ''{D1}y'']) =
     (if should_split 50 (replicate k (ustr ''x'') @ [ustr ''{D1}y''])
      then [(ustr ''f.txt'', replicate k (ustr ''x'')), (ustr ''f_D1.txt'', [ustr ''y''])]
      else [(ustr ''f_D1.txt'', replicate k (ustr ''x'') @ [ustr ''y''])])" for k
  proof -
    have nm: "ustr ''f'' @ ustr ''_'' @ 68 # ustr ''1'' @ ustr ''.txt'' = ustr ''f_D1.txt''"
      "ustr ''f'' @ ustr ''.txt'' = ustr ''f.txt''"
      by (simp_all add: ustr_def)
    have r: "fst (replace_page_markers (processed (ustr ''{D1}y'')) 1) = ustr ''y''"
      by (simp add: y replace_page_markers_id)
    have h: "\<forall>l\<in>set (replicate k (ustr ''x'')). section_of l = None"
      by (simp add: x)
    show ?thesis
      by (simp only: single_section_document[OF h y(1)] nm r np np')
  qed
  note a = lead_in_file_iff[of 50 "ustr ''f''" "replicate 60 (ustr ''x'') @ [ustr ''{D1}y'']"]
  from a s t have "\<exists>buf ws. process_file 50 (ustr ''f'') (replicate 60 (ustr ''x'') @ [ustr ''{D1}y'']) =
      (ustr ''f'' @ ustr ''.txt'', buf) # ws \<and> ws \<noteq> []"
    by blast
  with c[of 60] s t p[of 60] n p[of 10] show ?thesis by simp
qed

theorem lead_in_file_counterexample:
  "count_meaningful_lines_before_section [ustr ''x'', ustr ''{x,{D1}''] = (1, 1) \<and>
   should_split 1 [ustr ''x'', ustr ''{x,{D1}''] \<and>
   has_section_token (ustr ''{x,{D1}'') \<and>
   process_file 1 (ustr ''f'') [ustr ''x'', ustr ''{x,{D1}''] =
     [(ustr ''f.txt'', [ustr ''x'', ustr ''{D1''])]"
  by (simp add: evals)

section \<open>The other patterns\<close>

lemma BD_eq:
  "BRACKET_WITH_DOT_RE = Lit 91 # [Plus is_digit, Cls is_lower, Lit 46, Plus is_digit, Lit 93]"
  by (simp add: pats)

lemma TV_eq:
  "TEXT_VARIANT_RE =
     Lit 123 # [Plus (\<lambda>c. c \<noteq> 44 \<and> c \<noteq> 125), Lit 44, Plus (\<lambda>c. c \<noteq> 125), Lit 125]"
  by (simp add: pats)

lemma DASH_eq:
  "SECTION_DASH_TOKEN_RE = Lit 123 # [Lit 68, Plus is_digit, Lit 45, Plus is_digit, Lit 125]"
  by (simp add: pats)

lemma ST_eq:
  "SECTION_TOKEN_RE = Lit 123 # [Lit 68, Plus is_digit, Opt is_lower, Lit 125]"
  by (simp add: pats)

text \<open>What each element of a pattern contributes to a match.\<close>

lemma mt_Nil_iff: "mt [] s = Some (ps, r) \<longleftrightarrow> ps = [] \<and> r = s"
  by auto

lemma mt_Lit_iff:
  "mt (Lit a # es) s = Some (ps, r) \<longleftrightarrow>
   (\<exists>w ps'. s = a # w \<and> mt es w = Some (ps', r) \<and> ps = [a] # ps')"
  by (cases s) (auto split: option.splits)

lemma mt_Cls_iff:
  "mt (Cls P # es) s = Some (ps, r) \<longleftrightarrow>
   (\<exists>x w ps'. P x \<and> s = x # w \<and> mt es w = Some (ps', r) \<and> ps = [x] # ps')"
  by (cases s) (auto split: option.splits)

lemma mt_Plus_iff:
  assumes rej0: "\<forall>x xs. P x \<longrightarrow> mt es (x # xs) = None"
  shows "mt (Plus P # es) s = Some (ps, r) \<longleftrightarrow>
   (\<exists>ds w ps'. ds \<noteq> [] \<and> (\<forall>d\<in>set ds. P d) \<and> s = ds @ w \<and> mt es w = Some (ps', r) \<and>
      ps = ds # ps')"
proof -
  have rej: "\<And>x xs. P x \<Longrightarrow> mt es (x # xs) = None" using rej0 by blast
  show ?thesis
  proof
    assume m: "mt (Plus P # es) s = Some (ps, r)"
    then have t: "takeWhile P s \<noteq> []" by (simp add: plus_det[OF rej] split: if_splits)
    with m obtain ps' where p: "mt es (dropWhile P s) = Some (ps', r)" "ps = takeWhile P s # ps'"
      by (auto simp: plus_det[OF rej] split: option.splits)
    have "s = takeWhile P s @ dropWhile P s" by simp
    moreover have "\<forall>d\<in>set (takeWhile P s). P d" by (auto dest: set_takeWhileD)
    ultimately show "\<exists>ds w ps'. ds \<noteq> [] \<and> (\<forall>d\<in>set ds. P d) \<and> s = ds @ w \<and>
        mt es w = Some (ps', r) \<and> ps = ds # ps'"
      using t p by blast
  next
    assume "\<exists>ds w ps'. ds \<noteq> [] \<and> (\<forall>d\<in>set ds. P d) \<and> s = ds @ w \<and> mt es w = Some (ps', r) \<and>
        ps = ds # ps'"
    then obtain ds w ps' where h: "ds \<noteq> []" "\<forall>d\<in>set ds. P d" "s = ds @ w"
      "mt es w = Some (ps', r)" "ps = ds # ps'" by blast
    have "w = [] \<or> \<not> P (hd w)"
    proof (cases w)
      case Nil
      then show ?thesis by simp
    next
      case (Cons x xs)
      with h(4) rej[of x xs] show ?thesis by auto
    qed
    with h(2,3) have "takeWhile P s = ds \<and> dropWhile P s = w"
      by (subst span_iff) simp
    with h show "mt (Plus P # es) s = Some (ps, r)"
      by (simp add: plus_det[OF rej])
  qed
qed

lemma mt_Opt_shape:
  "mt (Opt P # es) s = Some (ps, r) \<Longrightarrow>
   (\<exists>x w ps'. P x \<and> s = x # w \<and> mt es w = Some (ps', r) \<and> ps = [x] # ps') \<or>
   (\<exists>ps'. mt es s = Some (ps', r) \<and> ps = [] # ps')"
  by (cases s) (auto split: option.splits if_splits)

lemma digit_not_bracket:
  "is_digit d \<Longrightarrow> d \<noteq> 91 \<and> d \<noteq> 93 \<and> d \<noteq> 123 \<and> d \<noteq> 125 \<and> d \<noteq> 45 \<and> d \<noteq> 46 \<and> d \<noteq> 80"
  by (auto dest: is_digit_bounds)

lemma mt_Plus_app:
  assumes rej0: "\<forall>x xs. P x \<longrightarrow> mt es (x # xs) = None"
    and "ds \<noteq> []" and "\<forall>d\<in>set ds. P d" and "w = [] \<or> \<not> P (hd w)"
  shows "mt (Plus P # es) (ds @ w) =
     (case mt es w of Some (ps', r) \<Rightarrow> Some (ds # ps', r) | None \<Rightarrow> None)"
proof -
  have rej: "\<And>x xs. P x \<Longrightarrow> mt es (x # xs) = None" using rej0 by blast
  have "takeWhile P (ds @ w) = ds \<and> dropWhile P (ds @ w) = w"
    using assms(3,4) by (subst span_iff) simp
  with assms(2) show ?thesis by (simp add: plus_det[OF rej] split: option.splits)
qed

lemma lower_not_digit: "is_lower l \<Longrightarrow> \<not> is_digit l"
  using digit_not_special by blast

lemma mt_BD_iff:
  "mt BRACKET_WITH_DOT_RE s = Some (ps, r) \<longleftrightarrow>
   (\<exists>ds l ds'. ds \<noteq> [] \<and> (\<forall>d\<in>set ds. is_digit d) \<and> is_lower l \<and>
      ds' \<noteq> [] \<and> (\<forall>d\<in>set ds'. is_digit d) \<and>
      s = 91 # ds @ l # 46 # ds' @ 93 # r \<and> ps = [[91], ds, [l], [46], ds', [93]])"
proof -
  have r1: "\<forall>x xs. is_digit x \<longrightarrow> mt [Lit 93] (x # xs) = None"
    by (auto dest: digit_not_bracket)
  have r2: "\<forall>x xs. is_digit x \<longrightarrow>
      mt [Cls is_lower, Lit 46, Plus is_digit, Lit 93] (x # xs) = None"
    by (auto dest: digit_not_special)
  show ?thesis
  proof
    assume "mt BRACKET_WITH_DOT_RE s = Some (ps, r)"
    then have "\<exists>w p. s = 91 # w \<and>
        mt [Plus is_digit, Cls is_lower, Lit 46, Plus is_digit, Lit 93] w = Some (p, r) \<and>
        ps = [91] # p"
      unfolding BD_eq by (simp only: mt_Lit_iff)
    then obtain w1 p1 where a: "s = 91 # w1" "ps = [91] # p1"
      "mt [Plus is_digit, Cls is_lower, Lit 46, Plus is_digit, Lit 93] w1 = Some (p1, r)" by blast
    from a(3) have "\<exists>ds w p. ds \<noteq> [] \<and> (\<forall>d\<in>set ds. is_digit d) \<and> w1 = ds @ w \<and>
        mt [Cls is_lower, Lit 46, Plus is_digit, Lit 93] w = Some (p, r) \<and> p1 = ds # p"
      by (rule mt_Plus_iff[OF r2, THEN iffD1])
    then obtain ds w2 p2 where b: "ds \<noteq> []" "\<forall>d\<in>set ds. is_digit d" "w1 = ds @ w2"
      "p1 = ds # p2" "mt [Cls is_lower, Lit 46, Plus is_digit, Lit 93] w2 = Some (p2, r)" by blast
    from b(5) have "\<exists>l w p. is_lower l \<and> w2 = l # 46 # w \<and>
        mt [Plus is_digit, Lit 93] w = Some (p, r) \<and> p2 = [l] # [46] # p"
      by (simp only: mt_Cls_iff mt_Lit_iff) blast
    then obtain l w3 p3 where c: "is_lower l" "w2 = l # 46 # w3" "p2 = [l] # [46] # p3"
      "mt [Plus is_digit, Lit 93] w3 = Some (p3, r)" by blast
    from c(4) have "\<exists>ds' w p. ds' \<noteq> [] \<and> (\<forall>d\<in>set ds'. is_digit d) \<and> w3 = ds' @ w \<and>
        mt [Lit 93] w = Some (p, r) \<and> p3 = ds' # p"
      by (rule mt_Plus_iff[OF r1, THEN iffD1])
    then have "\<exists>ds'. ds' \<noteq> [] \<and> (\<forall>d\<in>set ds'. is_digit d) \<and> w3 = ds' @ 93 # r \<and>
        p3 = [ds', [93]]"
      by (simp only: mt_Lit_iff mt_Nil_iff) blast
    then obtain ds' where d: "ds' \<noteq> []" "\<forall>d\<in>set ds'. is_digit d" "w3 = ds' @ 93 # r"
      "p3 = [ds', [93]]" by blast
    have "s = 91 # ds @ l # 46 # ds' @ 93 # r \<and> ps = [[91], ds, [l], [46], ds', [93]]"
      using a b c d by simp
    with b(1,2) c(1) d(1,2)
    show "\<exists>ds l ds'. ds \<noteq> [] \<and> (\<forall>d\<in>set ds. is_digit d) \<and> is_lower l \<and>
      ds' \<noteq> [] \<and> (\<forall>d\<in>set ds'. is_digit d) \<and>
      s = 91 # ds @ l # 46 # ds' @ 93 # r \<and> ps = [[91], ds, [l], [46], ds', [93]]"
      by blast
  next
    assume "\<exists>ds l ds'. ds \<noteq> [] \<and> (\<forall>d\<in>set ds. is_digit d) \<and> is_lower l \<and>
      ds' \<noteq> [] \<and> (\<forall>d\<in>set ds'. is_digit d) \<and>
      s = 91 # ds @ l # 46 # ds' @ 93 # r \<and> ps = [[91], ds, [l], [46], ds', [93]]"
    then obtain ds l ds' where h: "ds \<noteq> []" "\<forall>d\<in>set ds. is_digit d" "is_lower l"
      "ds' \<noteq> []" "\<forall>d\<in>set ds'. is_digit d"
      "s = 91 # ds @ l # 46 # ds' @ 93 # r" "ps = [[91], ds, [l], [46], ds', [93]]" by blast
    have i: "mt [Plus is_digit, Lit 93] (ds' @ 93 # r) = Some ([ds', [93]], r)"
      using h(4,5) by (subst mt_Plus_app[OF r1]) (auto dest: digit_not_bracket)
    have j: "mt [Cls is_lower, Lit 46, Plus is_digit, Lit 93] (l # 46 # ds' @ 93 # r) =
        Some ([[l], [46], ds', [93]], r)"
      using h(3) i by simp
    have "mt [Plus is_digit, Cls is_lower, Lit 46, Plus is_digit, Lit 93]
        (ds @ l # 46 # ds' @ 93 # r) = Some ([ds, [l], [46], ds', [93]], r)"
      using h(1,2,3) j by (subst mt_Plus_app[OF r2]) (auto dest: lower_not_digit)
    then show "mt BRACKET_WITH_DOT_RE s = Some (ps, r)"
      unfolding BD_eq h(6,7) by simp
  qed
qed

lemma mt_TV_iff:
  "mt TEXT_VARIANT_RE s = Some (ps, r) \<longleftrightarrow>
   (\<exists>A B. A \<noteq> [] \<and> (\<forall>c\<in>set A. c \<noteq> 44 \<and> c \<noteq> 125) \<and> B \<noteq> [] \<and> (\<forall>c\<in>set B. c \<noteq> 125) \<and>
      s = 123 # A @ 44 # B @ 125 # r \<and> ps = [[123], A, [44], B, [125]])"
proof -
  have r1: "\<forall>x xs. x \<noteq> 125 \<longrightarrow> mt [Lit 125] (x # xs) = None"
    by auto
  have r2: "\<forall>x xs. x \<noteq> 44 \<and> x \<noteq> 125 \<longrightarrow>
      mt [Lit 44, Plus (\<lambda>c. c \<noteq> 125), Lit 125] (x # xs) = None"
    by auto
  show ?thesis
  proof
    assume "mt TEXT_VARIANT_RE s = Some (ps, r)"
    then have "\<exists>w p. s = 123 # w \<and>
        mt [Plus (\<lambda>c. c \<noteq> 44 \<and> c \<noteq> 125), Lit 44, Plus (\<lambda>c. c \<noteq> 125), Lit 125] w = Some (p, r) \<and>
        ps = [123] # p"
      unfolding TV_eq by (simp only: mt_Lit_iff)
    then obtain w1 p1 where a: "s = 123 # w1" "ps = [123] # p1"
      "mt [Plus (\<lambda>c. c \<noteq> 44 \<and> c \<noteq> 125), Lit 44, Plus (\<lambda>c. c \<noteq> 125), Lit 125] w1 = Some (p1, r)"
      by blast
    from a(3) have "\<exists>A w p. A \<noteq> [] \<and> (\<forall>c\<in>set A. c \<noteq> 44 \<and> c \<noteq> 125) \<and> w1 = A @ w \<and>
        mt [Lit 44, Plus (\<lambda>c. c \<noteq> 125), Lit 125] w = Some (p, r) \<and> p1 = A # p"
      by (rule mt_Plus_iff[OF r2, THEN iffD1])
    then obtain A w2 p2 where b: "A \<noteq> []" "\<forall>c\<in>set A. c \<noteq> 44 \<and> c \<noteq> 125" "w1 = A @ w2"
      "p1 = A # p2" "mt [Lit 44, Plus (\<lambda>c. c \<noteq> 125), Lit 125] w2 = Some (p2, r)" by blast
    from b(5) have "\<exists>w p. w2 = 44 # w \<and> mt [Plus (\<lambda>c. c \<noteq> 125), Lit 125] w = Some (p, r) \<and>
        p2 = [44] # p"
      by (simp only: mt_Lit_iff)
    then obtain w3 p3 where c: "w2 = 44 # w3" "p2 = [44] # p3"
      "mt [Plus (\<lambda>c. c \<noteq> 125), Lit 125] w3 = Some (p3, r)" by blast
    from c(3) have "\<exists>B w p. B \<noteq> [] \<and> (\<forall>c\<in>set B. c \<noteq> 125) \<and> w3 = B @ w \<and>
        mt [Lit 125] w = Some (p, r) \<and> p3 = B # p"
      by (rule mt_Plus_iff[OF r1, THEN iffD1])
    then have "\<exists>B. B \<noteq> [] \<and> (\<forall>c\<in>set B. c \<noteq> 125) \<and> w3 = B @ 125 # r \<and> p3 = [B, [125]]"
      by (simp only: mt_Lit_iff mt_Nil_iff) blast
    then obtain B where d: "B \<noteq> []" "\<forall>c\<in>set B. c \<noteq> 125" "w3 = B @ 125 # r" "p3 = [B, [125]]"
      by blast
    have "s = 123 # A @ 44 # B @ 125 # r \<and> ps = [[123], A, [44], B, [125]]"
      using a b c d by simp
    with b(1,2) d(1,2)
    show "\<exists>A B. A \<noteq> [] \<and> (\<forall>c\<in>set A. c \<noteq> 44 \<and> c \<noteq> 125) \<and> B \<noteq> [] \<and> (\<forall>c\<in>set B. c \<noteq> 125) \<and>
      s = 123 # A @ 44 # B @ 125 # r \<and> ps = [[123], A, [44], B, [125]]"
      by blast
  next
    assume "\<exists>A B. A \<noteq> [] \<and> (\<forall>c\<in>set A. c \<noteq> 44 \<and> c \<noteq> 125) \<and> B \<noteq> [] \<and> (\<forall>c\<in>set B. c \<noteq> 125) \<and>
      s = 123 # A @ 44 # B @ 125 # r \<and> ps = [[123], A, [44], B, [125]]"
    then obtain A B where h: "A \<noteq> []" "\<forall>c\<in>set A. c \<noteq> 44 \<and> c \<noteq> 125" "B \<noteq> []"
      "\<forall>c\<in>set B. c \<noteq> 125" "s = 123 # A @ 44 # B @ 125 # r" "ps = [[123], A, [44], B, [125]]"
      by blast
    have i: "mt [Plus (\<lambda>c. c \<noteq> 125), Lit 125] (B @ 125 # r) = Some ([B, [125]], r)"
      using h(3,4) by (subst mt_Plus_app[OF r1]) auto
    have "mt [Plus (\<lambda>c. c \<noteq> 44 \<and> c \<noteq> 125), Lit 44, Plus (\<lambda>c. c \<noteq> 125), Lit 125]
        (A @ 44 # B @ 125 # r) = Some ([A, [44], B, [125]], r)"
      using h(1,2) i by (subst mt_Plus_app[OF r2]) auto
    then show "mt TEXT_VARIANT_RE s = Some (ps, r)"
      unfolding TV_eq h(5,6) by simp
  qed
qed

lemma mt_DASH_shape:
  "mt SECTION_DASH_TOKEN_RE s = Some (ps, r) \<Longrightarrow>
   \<exists>ds ds'. (\<forall>d\<in>set ds. is_digit d) \<and> (\<forall>d\<in>set ds'. is_digit d) \<and>
      s = 123 # 68 # ds @ 45 # ds' @ 125 # r"
proof -
  have r1: "\<forall>x xs. is_digit x \<longrightarrow> mt [Lit 125] (x # xs) = None"
    by (auto dest: digit_not_bracket)
  have r2: "\<forall>x xs. is_digit x \<longrightarrow> mt [Lit 45, Plus is_digit, Lit 125] (x # xs) = None"
    by (auto dest: digit_not_bracket)
  assume "mt SECTION_DASH_TOKEN_RE s = Some (ps, r)"
  then show ?thesis
    unfolding DASH_eq
    by (simp only: mt_Lit_iff mt_Plus_iff[OF r1] mt_Plus_iff[OF r2] mt_Nil_iff) auto
qed

lemma mt_ST_shape:
  "mt SECTION_TOKEN_RE s = Some (ps, r) \<Longrightarrow>
   \<exists>ds lo. (\<forall>d\<in>set ds. is_digit d) \<and> (\<forall>c\<in>set lo. is_lower c) \<and>
      s = 123 # 68 # ds @ lo @ 125 # r"
proof -
  have r2: "\<forall>x xs. is_digit x \<longrightarrow> mt [Opt is_lower, Lit 125] (x # xs) = None"
    by (auto dest: digit_not_special digit_not_bracket)
  assume "mt SECTION_TOKEN_RE s = Some (ps, r)"
  then obtain ds w ps' where h: "\<forall>d\<in>set ds. is_digit d" "s = 123 # 68 # ds @ w"
      "mt [Opt is_lower, Lit 125] w = Some (ps', r)"
    unfolding ST_eq by (simp only: mt_Lit_iff mt_Plus_iff[OF r2]) auto
  from mt_Opt_shape[OF h(3)] have "w = 125 # r \<or> (\<exists>x. is_lower x \<and> w = x # 125 # r)"
    by (simp only: mt_Lit_iff mt_Nil_iff) auto
  then show ?thesis
  proof
    assume "w = 125 # r"
    with h have "(\<forall>d\<in>set ds. is_digit d) \<and> (\<forall>c\<in>set []. is_lower c) \<and>
      s = 123 # 68 # ds @ [] @ 125 # r" by simp
    then show ?thesis by blast
  next
    assume "\<exists>x. is_lower x \<and> w = x # 125 # r"
    then obtain x where "is_lower x" "w = x # 125 # r" by blast
    with h have "(\<forall>d\<in>set ds. is_digit d) \<and> (\<forall>c\<in>set [x]. is_lower c) \<and>
      s = 123 # 68 # ds @ [x] @ 125 # r" by simp
    then show ?thesis by blast
  qed
qed

end
